theory Spec2Isabelle
  imports Main
begin

section \<open>Value types\<close>

text \<open>
  The worker of \<^verbatim>\<open>TimeLogHistoryWorker.cpp\<close> keeps two SQLite tables and a few
  in-memory members. A \<^verbatim>\<open>QUuid\<close> is modelled by a natural number, \<open>0\<close> being the
  null uuid. A \<^verbatim>\<open>QDateTime\<close> is an optional integer, \<open>None\<close> being the invalid
  date: start times count seconds, modification times count milliseconds.
\<close>

type_synonym QUuid = nat
type_synonym QDateTime = "int option"

definition toTime_t :: "QDateTime \<Rightarrow> int" where
  \<comment> \<open>\<^verbatim>\<open>QDateTime::toTime_t\<close>: an invalid or unrepresentable date gives \<^verbatim>\<open>uint(-1)\<close>.\<close>
  "toTime_t t = (case t of None \<Rightarrow> 4294967295
                 | Some v \<Rightarrow> if 0 \<le> v \<and> v < 4294967295 then v else 4294967295)"

definition toUInt :: "int \<Rightarrow> int" where
  \<comment> \<open>\<^verbatim>\<open>QVariant::toUInt\<close> of a 64-bit integer column.\<close>
  "toUInt v = v mod 4294967296"

definition toInt :: "int \<Rightarrow> int" where
  \<comment> \<open>\<^verbatim>\<open>QVariant::toInt\<close> of a 64-bit integer column.\<close>
  "toInt v = (v + 2147483648) mod 4294967296 - 2147483648"

definition fromTime_t :: "int \<Rightarrow> QDateTime" where
  "fromTime_t v = Some v"

definition toMSecsSinceEpoch :: "QDateTime \<Rightarrow> int" where
  \<comment> \<open>Only used to order modification times; an invalid date is ordered as the epoch.\<close>
  "toMSecsSinceEpoch t = (case t of None \<Rightarrow> 0 | Some m \<Rightarrow> m)"

datatype Field = StartTime | DurationTime | Category | Comment | PrecedingStart

type_synonym Fields = "Field set"

definition NoFields :: Fields where
  "NoFields = {}"

definition AllFieldsMask :: Fields where
  "AllFieldsMask = {StartTime, Category, Comment}"

record TimeLogEntry =
  uuid :: QUuid
  startTime :: QDateTime
  category :: string
  comment :: string
  durationTime :: int
  precedingStart :: QDateTime

record TimeLogSyncData =
  entry :: TimeLogEntry
  mTime :: QDateTime

definition emptyEntry :: TimeLogEntry where
  \<comment> \<open>Modelled from the spec: the default-constructed \<^verbatim>\<open>TimeLogEntry()\<close> of the header
      that is not part of the source file, the "empty" record.\<close>
  "emptyEntry = \<lparr>uuid = 0, startTime = None, category = [], comment = [],
                  durationTime = 0, precedingStart = None\<rparr>"

definition isValid :: "TimeLogEntry \<Rightarrow> bool" where
  \<comment> \<open>Modelled from the spec: \<^verbatim>\<open>TimeLogEntry::isValid\<close> of the header that is not part of
      the source file. An entry read from a tombstone (no category) and the empty entry
      are invalid.\<close>
  "isValid e = (uuid e \<noteq> 0 \<and> startTime e \<noteq> None \<and> category e \<noteq> [])"

definition toSyncData :: "TimeLogEntry \<Rightarrow> TimeLogSyncData" where
  \<comment> \<open>The implicit conversion at the calls \<^verbatim>\<open>insertData(entry)\<close>, \<^verbatim>\<open>removeData(data)\<close>,
      \<^verbatim>\<open>editData(data, fields)\<close>: the modification time is left invalid.\<close>
  "toSyncData e = \<lparr>entry = e, mTime = None\<rparr>"

definition emptySyncData :: TimeLogSyncData where
  "emptySyncData = toSyncData emptyEntry"

section \<open>Storage: the two tables and their triggers\<close>

record row =
  r_uuid :: QUuid
  r_start :: int
  r_category :: string
  r_comment :: string
  r_duration :: "int option"
  r_mtime :: int

text \<open>
  Table \<^verbatim>\<open>timelog\<close> is the list of its rows; table \<^verbatim>\<open>removed (uuid UNIQUE, mtime)\<close>
  is written by \<^verbatim>\<open>INSERT OR REPLACE\<close> only, so it is a partial map from uuid to mtime.
  The text columns hold strings: a null \<^verbatim>\<open>QString\<close>, which is bound as SQL NULL, is not
  told apart from the empty string.
\<close>

record database =
  timelog :: "row list"
  removed :: "QUuid \<rightharpoonup> int"

definition prev_start :: "row list \<Rightarrow> int \<Rightarrow> int option" where
  \<comment> \<open>\<^verbatim>\<open>SELECT start FROM timelog WHERE start < x ORDER BY start DESC LIMIT 1\<close>\<close>
  "prev_start rs x =
     (let ys = filter (\<lambda>s. s < x) (map r_start rs)
      in if ys = [] then None else Some (Max (set ys)))"

definition next_start :: "row list \<Rightarrow> int \<Rightarrow> int option" where
  \<comment> \<open>\<^verbatim>\<open>SELECT start FROM timelog WHERE start > x ORDER BY start ASC LIMIT 1\<close>\<close>
  "next_start rs x =
     (let ys = filter (\<lambda>s. x < s) (map r_start rs)
      in if ys = [] then None else Some (Min (set ys)))"

definition set_duration :: "int option \<Rightarrow> (row \<Rightarrow> int) \<Rightarrow> row list \<Rightarrow> row list" where
  \<comment> \<open>\<^verbatim>\<open>UPDATE timelog SET duration=<d> WHERE start=<k>\<close>; a NULL key selects no row.\<close>
  "set_duration k d rs =
     map (\<lambda>r. if Some (r_start r) = k then r\<lparr>r_duration := Some (d r)\<rparr> else r) rs"

definition ifnull_minus :: "int option \<Rightarrow> int \<Rightarrow> int" where
  \<comment> \<open>\<^verbatim>\<open>IFNULL(<n> - x, -1)\<close>\<close>
  "ifnull_minus n x = (case n of None \<Rightarrow> - 1 | Some v \<Rightarrow> v - x)"

definition nullif :: "int option \<Rightarrow> int option \<Rightarrow> int option" where
  "nullif a b = (if a = b then None else a)"

definition check_insert_timelog :: "database \<Rightarrow> QUuid \<Rightarrow> int \<Rightarrow> bool" where
  \<comment> \<open>Trigger \<^verbatim>\<open>check_insert_timelog BEFORE INSERT ON timelog\<close>: true when it raises IGNORE.\<close>
  "check_insert_timelog d u mt = (case removed d u of None \<Rightarrow> False | Some tm \<Rightarrow> mt < tm)"

definition insert_timelog :: "row \<Rightarrow> database \<Rightarrow> database" where
  \<comment> \<open>Trigger \<^verbatim>\<open>insert_timelog AFTER INSERT ON timelog\<close>, the new row being in the table.\<close>
  "insert_timelog new d =
     (let t1 = set_duration (prev_start (timelog d) (r_start new))
                 (\<lambda>r. r_start new - r_start r) (timelog d);
          t2 = set_duration (Some (r_start new))
                 (\<lambda>r. ifnull_minus (next_start t1 (r_start new)) (r_start new)) t1
      in \<lparr>timelog = t2, removed = (removed d)(r_uuid new := None)\<rparr>)"

definition delete_timelog :: "row \<Rightarrow> row list \<Rightarrow> row list" where
  \<comment> \<open>Trigger \<^verbatim>\<open>delete_timelog AFTER DELETE ON timelog\<close>, the old row being gone.\<close>
  "delete_timelog old rs =
     set_duration (prev_start rs (r_start old))
       (\<lambda>r. ifnull_minus (next_start rs (r_start old)) (r_start r)) rs"

definition update_timelog :: "row \<Rightarrow> row \<Rightarrow> row list \<Rightarrow> row list" where
  \<comment> \<open>Trigger \<^verbatim>\<open>update_timelog AFTER UPDATE OF start ON timelog\<close>.\<close>
  "update_timelog old new rs =
     (let t1 = set_duration (prev_start rs (r_start new)) (\<lambda>r. r_start new - r_start r) rs;
          t2 = set_duration
                 (nullif (prev_start t1 (r_start old)) (prev_start t1 (r_start new)))
                 (\<lambda>r. ifnull_minus (next_start t1 (r_start old)) (r_start r)) t1
      in set_duration (Some (r_start new))
           (\<lambda>r. ifnull_minus (next_start t2 (r_start new)) (r_start new)) t2)"

definition sql_insert_timelog ::
  "QUuid \<Rightarrow> int \<Rightarrow> string \<Rightarrow> string \<Rightarrow> int \<Rightarrow> database \<Rightarrow> (nat \<times> database) option" where
  \<comment> \<open>\<^verbatim>\<open>INSERT INTO timelog (uuid, start, category, comment, mtime) VALUES (?,?,?,?,?)\<close>.
      \<open>None\<close> is a failed statement (primary key or UNIQUE violation), which changes nothing;
      otherwise the number of rows the statement itself changed and the new tables.\<close>
  "sql_insert_timelog u st cat com mt d =
     (if check_insert_timelog d u mt then Some (0, d)
      else if st \<in> set (map r_start (timelog d)) \<or> u \<in> set (map r_uuid (timelog d)) then None
      else let new = \<lparr>r_uuid = u, r_start = st, r_category = cat, r_comment = com,
                       r_duration = None, r_mtime = mt\<rparr>
           in Some (1, insert_timelog new (d\<lparr>timelog := timelog d @ [new]\<rparr>)))"

definition sql_delete_timelog :: "QUuid \<Rightarrow> row list \<Rightarrow> row list" where
  \<comment> \<open>\<^verbatim>\<open>DELETE FROM timelog WHERE uuid=?\<close>; uuid is UNIQUE, so one row at most goes.\<close>
  "sql_delete_timelog u rs =
     (case find (\<lambda>r. r_uuid r = u) rs of
        None \<Rightarrow> rs
      | Some old \<Rightarrow> delete_timelog old (filter (\<lambda>r. r_uuid r \<noteq> u) rs))"

definition check_insert_removed :: "database \<Rightarrow> QUuid \<Rightarrow> int \<Rightarrow> bool" where
  \<comment> \<open>Trigger \<^verbatim>\<open>check_insert_removed BEFORE INSERT ON removed\<close>: true when it raises IGNORE.\<close>
  "check_insert_removed d u mt = (case removed d u of None \<Rightarrow> False | Some tm \<Rightarrow> mt < tm)"

definition sql_insert_removed :: "QUuid \<Rightarrow> int \<Rightarrow> database \<Rightarrow> nat \<times> database" where
  \<comment> \<open>\<^verbatim>\<open>INSERT OR REPLACE INTO removed (uuid, mtime) VALUES(?,?)\<close> with its triggers; the
      trigger \<^verbatim>\<open>insert_removed\<close> deletes the live row of that uuid.\<close>
  "sql_insert_removed u mt d =
     (if check_insert_removed d u mt then (0, d)
      else (1, \<lparr>timelog = sql_delete_timelog u (timelog d), removed = (removed d)(u \<mapsto> mt)\<rparr>))"

definition sql_update_timelog ::
  "Fields \<Rightarrow> QUuid \<Rightarrow> int \<Rightarrow> string \<Rightarrow> string \<Rightarrow> int \<Rightarrow> database \<Rightarrow> database option" where
  \<comment> \<open>\<^verbatim>\<open>UPDATE timelog SET [start=?,] [category=?,] [comment=?,] mtime=? WHERE uuid=?\<close>.
      With none of the three columns the statement text is \<^verbatim>\<open>SET , mtime=?\<close>, which does
      not prepare. Trigger \<^verbatim>\<open>check_update_timelog\<close> ignores a staler row update.\<close>
  "sql_update_timelog f u st cat com mt d =
     (if f \<inter> {StartTime, Category, Comment} = {} then None
      else case find (\<lambda>r. r_uuid r = u) (timelog d) of
        None \<Rightarrow> Some d
      | Some old \<Rightarrow>
          if mt < r_mtime old then Some d
          else let new = old\<lparr>r_start := (if StartTime \<in> f then st else r_start old),
                            r_category := (if Category \<in> f then cat else r_category old),
                            r_comment := (if Comment \<in> f then com else r_comment old),
                            r_mtime := mt\<rparr>
               in if r_start new \<in> set (map r_start (filter (\<lambda>r. r_uuid r \<noteq> u) (timelog d)))
                  then None
                  else let tl1 = map (\<lambda>r. if r_uuid r = u then new else r) (timelog d)
                       in Some (d\<lparr>timelog := (if StartTime \<in> f then update_timelog old new tl1
                                               else tl1)\<rparr>))"

definition sql_update_category :: "string \<Rightarrow> int \<Rightarrow> string \<Rightarrow> row list \<Rightarrow> row list" where
  \<comment> \<open>\<^verbatim>\<open>UPDATE timelog SET category=?, mtime=? WHERE category=?\<close>\<close>
  "sql_update_category newName mt oldName rs =
     map (\<lambda>r. if r_category r = oldName \<and> \<not> mt < r_mtime r
               then r\<lparr>r_category := newName, r_mtime := mt\<rparr> else r) rs"

section \<open>The worker: members, signals and helpers\<close>

datatype message = EmptyCategoryName | SqlLastError

datatype signal =
    Error message
  | DataInserted TimeLogEntry
  | DataImported "TimeLogEntry list"
  | DataRemoved TimeLogEntry
  | DataUpdated "TimeLogEntry list" "Fields list"
  | DataOutdated
  | DataSynced "TimeLogSyncData list" "TimeLogSyncData list"
  | SizeChanged int
  | CategoriesChanged "string set"
  | UndoCountChanged int
  | HistoryRequestCompleted "TimeLogEntry list" int
  | SyncStatsAvailable "TimeLogSyncData list" "TimeLogSyncData list" "TimeLogSyncData list"
      "TimeLogSyncData list" "TimeLogSyncData list" "TimeLogSyncData list"

datatype UndoType = Insert | Remove | Edit | EditCategory

record Undo =
  u_type :: UndoType
  u_data :: "TimeLogEntry list"
  u_fields :: "Fields list"

text \<open>
  The state of a worker: the database it owns, its members \<^verbatim>\<open>m_size\<close>,
  \<^verbatim>\<open>m_categories\<close> and \<^verbatim>\<open>m_undoStack\<close> (oldest frame first), and the signals it has
  emitted so far, in order. Statements fail only by violated constraints or by a
  statement text that does not prepare; the clock is read once per command (\<open>now\<close>,
  in milliseconds).
\<close>

record worker =
  db :: database
  m_size :: int
  m_categories :: "string set"
  m_undoStack :: "Undo list"
  emitted :: "signal list"

definition maxUndoSize :: int where
  "maxUndoSize = 10"

definition emit :: "signal \<Rightarrow> worker \<Rightarrow> worker" where
  "emit e s = s\<lparr>emitted := emitted s @ [e]\<rparr>"

definition setSize :: "int \<Rightarrow> worker \<Rightarrow> worker" where
  "setSize n s =
     (if m_size s = n then s else emit (SizeChanged n) (s\<lparr>m_size := n\<rparr>))"

definition removeFromCategories :: "string \<Rightarrow> worker \<Rightarrow> worker" where
  "removeFromCategories c s =
     (if c \<notin> m_categories s then s
      else emit (CategoriesChanged (m_categories s - {c}))
             (s\<lparr>m_categories := m_categories s - {c}\<rparr>))"

definition addToCategories :: "string \<Rightarrow> worker \<Rightarrow> worker" where
  "addToCategories c s =
     (if c \<in> m_categories s then s
      else emit (CategoriesChanged (insert c (m_categories s)))
             (s\<lparr>m_categories := insert c (m_categories s)\<rparr>))"

definition processFail :: "worker \<Rightarrow> worker" where
  "processFail s = emit DataOutdated (emit (UndoCountChanged 0) (s\<lparr>m_undoStack := []\<rparr>))"

definition pushUndo :: "Undo \<Rightarrow> worker \<Rightarrow> worker" where
  "pushUndo undo s =
     (let s1 = s\<lparr>m_undoStack := m_undoStack s @ [undo]\<rparr>
      in if int (length (m_undoStack s1)) > maxUndoSize
         then s1\<lparr>m_undoStack := tl (m_undoStack s1)\<rparr>
         else emit (UndoCountChanged (int (length (m_undoStack s1)))) s1)"

section \<open>Queries\<close>

definition selectFields :: "row list \<Rightarrow> row \<Rightarrow> TimeLogEntry" where
  \<comment> \<open>One result row of \<^verbatim>\<open>selectFields\<close> as \<^verbatim>\<open>getHistory\<close> reads it.\<close>
  "selectFields rs r =
     \<lparr>uuid = r_uuid r,
      startTime = fromTime_t (toUInt (r_start r)),
      category = r_category r,
      comment = r_comment r,
      durationTime = toInt (case r_duration r of None \<Rightarrow> 0 | Some v \<Rightarrow> v),
      precedingStart =
        fromTime_t (toUInt (case prev_start rs (r_start r) of None \<Rightarrow> 0 | Some p \<Rightarrow> p))\<rparr>"

definition getHistory :: "row list \<Rightarrow> row list \<Rightarrow> TimeLogEntry list" where
  "getHistory rs selected = map (selectFields rs) selected"

definition start_asc :: "row list \<Rightarrow> row list" where
  \<comment> \<open>\<^verbatim>\<open>ORDER BY start ASC\<close>; also the order of a plain scan, start being the rowid.\<close>
  "start_asc rs = sort_key r_start rs"

definition start_desc :: "row list \<Rightarrow> row list" where
  "start_desc rs = rev (sort_key r_start rs)"

definition getEntry :: "QUuid \<Rightarrow> worker \<Rightarrow> TimeLogEntry" where
  "getEntry u s =
     (case getHistory (timelog (db s)) (start_asc (filter (\<lambda>r. r_uuid r = u) (timelog (db s)))) of
        [] \<Rightarrow> emptyEntry
      | e # _ \<Rightarrow> e)"

definition getEntries :: "string \<Rightarrow> worker \<Rightarrow> TimeLogEntry list" where
  "getEntries c s =
     getHistory (timelog (db s)) (start_asc (filter (\<lambda>r. r_category r = c) (timelog (db s))))"

definition syncData_of_row :: "row \<Rightarrow> TimeLogSyncData" where
  \<comment> \<open>A live row as \<^verbatim>\<open>getSyncData(QSqlQuery&)\<close> reads it.\<close>
  "syncData_of_row r =
     \<lparr>entry = emptyEntry\<lparr>uuid := r_uuid r, startTime := fromTime_t (toUInt (r_start r)),
                          category := r_category r, comment := r_comment r\<rparr>,
      mTime = Some (r_mtime r)\<rparr>"

definition syncData_of_tombstone :: "QUuid \<Rightarrow> int \<Rightarrow> TimeLogSyncData" where
  \<comment> \<open>A tombstone as \<^verbatim>\<open>getSyncData(QSqlQuery&)\<close> reads it: the NULL columns read as
      second 0 and as empty strings.\<close>
  "syncData_of_tombstone u m =
     \<lparr>entry = emptyEntry\<lparr>uuid := u, startTime := fromTime_t (toUInt 0)\<rparr>, mTime = Some m\<rparr>"

definition getSyncAffected :: "QUuid \<Rightarrow> worker \<Rightarrow> TimeLogSyncData list" where
  \<comment> \<open>The live row and the tombstone of the uuid, \<^verbatim>\<open>ORDER BY mtime DESC LIMIT 1\<close>.\<close>
  "getSyncAffected u s =
     (case (find (\<lambda>r. r_uuid r = u) (timelog (db s)), removed (db s) u) of
        (None, None) \<Rightarrow> []
      | (Some r, None) \<Rightarrow> [syncData_of_row r]
      | (None, Some m) \<Rightarrow> [syncData_of_tombstone u m]
      | (Some r, Some m) \<Rightarrow>
          if r_mtime r < m then [syncData_of_tombstone u m] else [syncData_of_row r])"

definition getHistoryBefore :: "int \<Rightarrow> nat \<Rightarrow> QDateTime \<Rightarrow> worker \<Rightarrow> worker" where
  \<comment> \<open>\<^verbatim>\<open>WHERE start < ? ORDER BY start DESC LIMIT ?\<close>, then reversed.\<close>
  "getHistoryBefore rid limit until s =
     (let result = getHistory (timelog (db s))
                     (take limit (start_desc
                        (filter (\<lambda>r. r_start r < toTime_t until) (timelog (db s)))))
      in emit (HistoryRequestCompleted (rev result) rid) s)"

section \<open>Notifications\<close>

definition defaultUpdateFields :: Fields where
  \<comment> \<open>Modelled from the spec: the default of the last parameter of \<^verbatim>\<open>notifyUpdates\<close>,
      declared in the header that is not part of the source file.\<close>
  "defaultUpdateFields = {DurationTime, PrecedingStart}"

definition notifyUpdates :: "row list \<Rightarrow> Fields \<Rightarrow> worker \<Rightarrow> worker" where
  \<comment> \<open>\<open>selected\<close> are the rows of the \<^verbatim>\<open>UNION\<close> of the window queries, with duplicates.\<close>
  "notifyUpdates selected flds s =
     (let updatedData = getHistory (timelog (db s)) (start_asc (remdups selected))
      in if updatedData \<noteq> []
         then emit (DataUpdated updatedData (replicate (length updatedData) flds)) s
         else s)"

definition le_desc :: "row list \<Rightarrow> int \<Rightarrow> nat \<Rightarrow> row list" where
  "le_desc rs x n = take n (start_desc (filter (\<lambda>r. r_start r \<le> x) rs))"

definition lt_desc :: "row list \<Rightarrow> int \<Rightarrow> nat \<Rightarrow> row list" where
  "lt_desc rs x n = take n (start_desc (filter (\<lambda>r. r_start r < x) rs))"

definition gt_asc :: "row list \<Rightarrow> int \<Rightarrow> nat \<Rightarrow> row list" where
  "gt_asc rs x n = take n (start_asc (filter (\<lambda>r. x < r_start r) rs))"

definition notifyInsertUpdates :: "TimeLogEntry \<Rightarrow> worker \<Rightarrow> worker" where
  "notifyInsertUpdates data s =
     (let rs = timelog (db s); newStart = toTime_t (startTime data)
      in notifyUpdates (le_desc rs newStart 2 @ gt_asc rs newStart 1) defaultUpdateFields s)"

definition notifyRemoveUpdates :: "TimeLogEntry \<Rightarrow> worker \<Rightarrow> worker" where
  "notifyRemoveUpdates data s =
     (let rs = timelog (db s); oldStart = toTime_t (startTime data)
      in notifyUpdates (lt_desc rs oldStart 1 @ gt_asc rs oldStart 1) defaultUpdateFields s)"

definition notifyEditUpdates :: "TimeLogEntry \<Rightarrow> Fields \<Rightarrow> QDateTime \<Rightarrow> worker \<Rightarrow> worker" where
  "notifyEditUpdates data flds oldStart s =
     (let rs = timelog (db s); newS = toTime_t (startTime data); oldS = toTime_t oldStart
      in if StartTime \<in> flds
         then notifyUpdates
                (le_desc rs newS 2 @ gt_asc rs newS 1 @ lt_desc rs oldS 1 @ gt_asc rs oldS 1)
                (flds \<union> {DurationTime, PrecedingStart}) s
         else notifyUpdates (filter (\<lambda>r. r_start r = newS) rs) flds s)"

section \<open>Mutations\<close>

definition mtime_or_now :: "int \<Rightarrow> TimeLogSyncData \<Rightarrow> int" where
  \<comment> \<open>\<^verbatim>\<open>data.mTime.isValid() ? data.mTime.toMSecsSinceEpoch() : currentMSecsSinceEpoch()\<close>\<close>
  "mtime_or_now now data = (case mTime data of None \<Rightarrow> now | Some m \<Rightarrow> m)"

definition insertData :: "int \<Rightarrow> TimeLogSyncData \<Rightarrow> worker \<Rightarrow> bool \<times> worker" where
  "insertData now data s =
     (case sql_insert_timelog (uuid (entry data)) (toTime_t (startTime (entry data)))
             (category (entry data)) (comment (entry data)) (mtime_or_now now data) (db s) of
        None \<Rightarrow> (False, emit (Error SqlLastError) s)
      | Some (n, d) \<Rightarrow>
          (True, addToCategories (category (entry data))
                   (setSize (m_size s + int n) (s\<lparr>db := d\<rparr>))))"

definition removeData :: "int \<Rightarrow> TimeLogSyncData \<Rightarrow> worker \<Rightarrow> bool \<times> worker" where
  "removeData now data s =
     (case sql_insert_removed (uuid (entry data)) (mtime_or_now now data) (db s) of
        (n, d) \<Rightarrow> (True, setSize (m_size s - int n) (s\<lparr>db := d\<rparr>)))"

definition editData :: "int \<Rightarrow> TimeLogSyncData \<Rightarrow> Fields \<Rightarrow> worker \<Rightarrow> bool \<times> worker" where
  "editData now data flds s =
     (case sql_update_timelog flds (uuid (entry data)) (toTime_t (startTime (entry data)))
             (category (entry data)) (comment (entry data)) (mtime_or_now now data) (db s) of
        None \<Rightarrow> (False, emit (Error SqlLastError) s)
      | Some d \<Rightarrow>
          (True, if Category \<in> flds then addToCategories (category (entry data)) (s\<lparr>db := d\<rparr>)
                 else s\<lparr>db := d\<rparr>))"

definition updateSize :: "worker \<Rightarrow> worker" where
  "updateSize s = setSize (int (length (timelog (db s)))) s"

definition updateCategories :: "int \<Rightarrow> int \<Rightarrow> worker \<Rightarrow> worker" where
  \<comment> \<open>\<^verbatim>\<open>SELECT DISTINCT category FROM timelog WHERE start BETWEEN ? AND ?\<close>, swapped in.\<close>
  "updateCategories b e s =
     (let result = set (map r_category
                     (filter (\<lambda>r. b \<le> r_start r \<and> r_start r \<le> e) (timelog (db s))))
      in emit (CategoriesChanged result) (s\<lparr>m_categories := result\<rparr>))"

definition defaultBegin :: int where
  \<comment> \<open>Modelled from the spec: the default arguments of \<^verbatim>\<open>updateCategories\<close> are declared
      in the header that is not part of the source file; the set is rebuilt wholesale.\<close>
  "defaultBegin = 0"

definition defaultEnd :: int where
  \<comment> \<open>Modelled from the spec: see \<open>defaultBegin\<close>.\<close>
  "defaultEnd = 4294967295"

definition editCategoryData :: "int \<Rightarrow> string \<Rightarrow> string \<Rightarrow> worker \<Rightarrow> bool \<times> worker" where
  "editCategoryData now oldName newName s =
     (if filter (\<lambda>r. r_category r = oldName) (timelog (db s)) = []
      then (False, removeFromCategories oldName s)
      else (True, updateCategories defaultBegin defaultEnd
                    (s\<lparr>db := (db s)\<lparr>timelog :=
                           sql_update_category newName now oldName (timelog (db s))\<rparr>\<rparr>)))"

fun run_all :: "('a \<Rightarrow> worker \<Rightarrow> bool \<times> worker) \<Rightarrow> 'a list \<Rightarrow> worker \<Rightarrow> bool \<times> worker" where
  \<comment> \<open>A \<^verbatim>\<open>foreach\<close> that stops at the first step returning false.\<close>
  "run_all f [] s = (True, s)"
| "run_all f (x # xs) s =
     (case f x s of (False, s1) \<Rightarrow> (False, s1) | (True, s1) \<Rightarrow> run_all f xs s1)"

definition insertDataAll :: "int \<Rightarrow> TimeLogEntry list \<Rightarrow> worker \<Rightarrow> bool \<times> worker" where
  \<comment> \<open>\<^verbatim>\<open>insertData(const QVector<TimeLogEntry> &)\<close>: one transaction, rolled back on failure.\<close>
  "insertDataAll now data s =
     (case run_all (\<lambda>e. insertData now (toSyncData e)) data s of
        (False, s1) \<Rightarrow> (False, s1\<lparr>db := db s\<rparr>)
      | (True, s1) \<Rightarrow> (True, s1))"

definition changedFields :: "TimeLogSyncData \<Rightarrow> TimeLogSyncData \<Rightarrow> Fields" where
  "changedFields newField oldField =
     (if startTime (entry newField) \<noteq> startTime (entry oldField) then {StartTime} else {})
     \<union> (if category (entry newField) \<noteq> category (entry oldField) then {Category} else {})
     \<union> (if comment (entry newField) \<noteq> comment (entry oldField) then {Comment} else {})"

definition syncNotify ::
  "TimeLogSyncData list \<Rightarrow> TimeLogSyncData list \<Rightarrow> TimeLogSyncData list \<Rightarrow>
   TimeLogSyncData list \<Rightarrow> worker \<Rightarrow> worker" where
  \<comment> \<open>The five notification loops of \<^verbatim>\<open>syncData\<close> after the commit.\<close>
  "syncNotify rem ins updatedNew updatedOld s =
     (let valid = filter isValid (map entry rem);
          s1 = fold (\<lambda>e. emit (DataRemoved e)) valid s;
          s2 = fold notifyRemoveUpdates valid s1;
          s3 = fold (\<lambda>e. emit (DataInserted e)) (map entry ins) s2;
          s4 = fold notifyInsertUpdates (map entry ins) s3
      in fold (\<lambda>(n, old). notifyEditUpdates (entry n) (changedFields n old) (startTime (entry old)))
           (zip updatedNew updatedOld) s4)"

definition syncData ::
  "int \<Rightarrow> TimeLogSyncData list \<Rightarrow> TimeLogSyncData list \<Rightarrow> TimeLogSyncData list \<Rightarrow>
   TimeLogSyncData list \<Rightarrow> worker \<Rightarrow> bool \<times> worker" where
  "syncData now rem ins updatedNew updatedOld s =
     (case run_all (removeData now) rem s of
        (False, s1) \<Rightarrow> (False, s1\<lparr>db := db s\<rparr>)
      | (True, s1) \<Rightarrow>
     (case run_all (insertData now) ins s1 of
        (False, s2) \<Rightarrow> (False, s2\<lparr>db := db s\<rparr>)
      | (True, s2) \<Rightarrow>
     (case run_all (\<lambda>e. editData now e AllFieldsMask) updatedNew s2 of
        (False, s3) \<Rightarrow> (False, s3\<lparr>db := db s\<rparr>)
      | (True, s3) \<Rightarrow> (True, syncNotify rem ins updatedNew updatedOld s3))))"

definition insertEntry :: "int \<Rightarrow> TimeLogEntry \<Rightarrow> worker \<Rightarrow> worker" where
  "insertEntry now data s =
     (case insertData now (toSyncData data) s of
        (True, s1) \<Rightarrow> notifyInsertUpdates data (emit (DataInserted data) s1)
      | (False, s1) \<Rightarrow> processFail s1)"

definition removeEntry :: "int \<Rightarrow> TimeLogEntry \<Rightarrow> worker \<Rightarrow> worker" where
  "removeEntry now data s =
     (case removeData now (toSyncData data) s of
        (True, s1) \<Rightarrow> notifyRemoveUpdates data (emit (DataRemoved data) s1)
      | (False, s1) \<Rightarrow> processFail s1)"

definition editEntry :: "int \<Rightarrow> TimeLogEntry \<Rightarrow> Fields \<Rightarrow> worker \<Rightarrow> bool \<times> worker" where
  "editEntry now data flds s =
     (if flds = NoFields then (False, s)
      else if StartTime \<in> flds \<and> \<not> isValid (getEntry (uuid data) s) then (False, processFail s)
      else let oldStart = (if StartTime \<in> flds then startTime (getEntry (uuid data) s) else None)
           in case editData now (toSyncData data) flds s of
                (True, s1) \<Rightarrow> (True, notifyEditUpdates data flds oldStart s1)
              | (False, s1) \<Rightarrow> (False, processFail s1))"

definition editEntries :: "int \<Rightarrow> TimeLogEntry list \<Rightarrow> Fields list \<Rightarrow> worker \<Rightarrow> worker" where
  "editEntries now data flds s = snd (run_all (\<lambda>(e, f). editEntry now e f) (zip data flds) s)"

section \<open>Commands\<close>

definition insert_cmd :: "int \<Rightarrow> TimeLogEntry \<Rightarrow> worker \<Rightarrow> worker" where
  \<comment> \<open>\<^verbatim>\<open>TimeLogHistoryWorker::insert\<close>\<close>
  "insert_cmd now data s =
     insertEntry now data (pushUndo \<lparr>u_type = Insert, u_data = [data], u_fields = []\<rparr> s)"

definition import_cmd :: "int \<Rightarrow> TimeLogEntry list \<Rightarrow> worker \<Rightarrow> worker" where
  \<comment> \<open>\<^verbatim>\<open>TimeLogHistoryWorker::import\<close>\<close>
  "import_cmd now data s =
     (case insertDataAll now data s of
        (True, s1) \<Rightarrow> emit (DataImported data) s1
      | (False, s1) \<Rightarrow> processFail s1)"

definition remove_cmd :: "int \<Rightarrow> TimeLogEntry \<Rightarrow> worker \<Rightarrow> worker" where
  \<comment> \<open>\<^verbatim>\<open>TimeLogHistoryWorker::remove\<close>\<close>
  "remove_cmd now data s =
     removeEntry now data
       (pushUndo \<lparr>u_type = Remove, u_data = [getEntry (uuid data) s], u_fields = []\<rparr> s)"

definition edit_cmd :: "int \<Rightarrow> TimeLogEntry \<Rightarrow> Fields \<Rightarrow> worker \<Rightarrow> worker" where
  \<comment> \<open>\<^verbatim>\<open>TimeLogHistoryWorker::edit\<close>\<close>
  "edit_cmd now data flds s =
     snd (editEntry now data flds
            (pushUndo \<lparr>u_type = Edit, u_data = [getEntry (uuid data) s], u_fields = [flds]\<rparr> s))"

definition editCategory :: "int \<Rightarrow> string \<Rightarrow> string \<Rightarrow> worker \<Rightarrow> worker" where
  "editCategory now oldName newName s =
     (if newName = [] then emit (Error EmptyCategoryName) s
      else if oldName = newName then s
      else let entries = getEntries oldName s;
               s1 = pushUndo \<lparr>u_type = EditCategory, u_data = entries,
                               u_fields = replicate (length entries) {Category}\<rparr> s
           in case editCategoryData now oldName newName s1 of
                (True, s2) \<Rightarrow> emit DataOutdated s2
              | (False, s2) \<Rightarrow> processFail s2)"

fun classifyRemoved ::
  "worker \<Rightarrow> TimeLogSyncData list \<Rightarrow> TimeLogSyncData list \<times> TimeLogSyncData list" where
  \<comment> \<open>The first loop of \<^verbatim>\<open>sync\<close>: the lists \<^verbatim>\<open>removedNew\<close> and \<^verbatim>\<open>removedOld\<close>.\<close>
  "classifyRemoved s [] = ([], [])"
| "classifyRemoved s (e # es) =
     (case classifyRemoved s es of (removedNew, removedOld) \<Rightarrow>
        (case getSyncAffected (uuid (entry e)) s of
           [] \<Rightarrow> (e # removedNew, emptySyncData # removedOld)
         | a # _ \<Rightarrow>
             if toMSecsSinceEpoch (mTime e) \<le> toMSecsSinceEpoch (mTime a)
             then (removedNew, removedOld)
             else (e # removedNew, a # removedOld)))"

fun classifyUpdated ::
  "worker \<Rightarrow> TimeLogSyncData list \<Rightarrow>
   (TimeLogSyncData list \<times> TimeLogSyncData list) \<times> (TimeLogSyncData list \<times> TimeLogSyncData list)"
  where
  \<comment> \<open>The second loop of \<^verbatim>\<open>sync\<close>: \<^verbatim>\<open>(insertedNew, insertedOld)\<close> and
      \<^verbatim>\<open>(updatedNew, updatedOld)\<close>.\<close>
  "classifyUpdated s [] = (([], []), ([], []))"
| "classifyUpdated s (e # es) =
     (case classifyUpdated s es of ((insertedNew, insertedOld), (updatedNew, updatedOld)) \<Rightarrow>
        (case getSyncAffected (uuid (entry e)) s of
           [] \<Rightarrow> ((e # insertedNew, emptySyncData # insertedOld), (updatedNew, updatedOld))
         | a # _ \<Rightarrow>
             if toMSecsSinceEpoch (mTime e) \<le> toMSecsSinceEpoch (mTime a)
             then ((insertedNew, insertedOld), (updatedNew, updatedOld))
             else if \<not> isValid (entry a)
             then ((e # insertedNew, a # insertedOld), (updatedNew, updatedOld))
             else ((insertedNew, insertedOld), (e # updatedNew, a # updatedOld))))"

definition removedMerged :: "TimeLogSyncData list \<Rightarrow> TimeLogSyncData list \<Rightarrow> TimeLogSyncData list"
  where
  "removedMerged removedOld removedNew =
     map (\<lambda>(old, new). \<lparr>entry = (entry old)\<lparr>uuid := uuid (entry new)\<rparr>, mTime = mTime new\<rparr>)
       (zip removedOld removedNew)"

definition sync :: "int \<Rightarrow> TimeLogSyncData list \<Rightarrow> TimeLogSyncData list \<Rightarrow> worker \<Rightarrow> worker" where
  "sync now updatedData removedData s =
     (case classifyRemoved s removedData of (removedNew, removedOld) \<Rightarrow>
     (case classifyUpdated s updatedData of ((insertedNew, insertedOld), (updatedNew, updatedOld)) \<Rightarrow>
     (case syncData now (removedMerged removedOld removedNew) insertedNew updatedNew updatedOld
             (emit (SyncStatsAvailable removedOld removedNew insertedOld insertedNew
                      updatedOld updatedNew) s) of
        (True, s2) \<Rightarrow> emit (DataSynced updatedData removedData) s2
      | (False, s2) \<Rightarrow> s2)))"

definition undo :: "int \<Rightarrow> worker \<Rightarrow> worker" where
  \<comment> \<open>The frames of type Insert, Remove and Edit are built with exactly one entry (and
      Edit with one field mask), so \<^verbatim>\<open>constFirst()\<close> is never taken of an empty vector; the
      model leaves the state alone there.\<close>
  "undo now s =
     (if m_undoStack s = [] then s
      else let u = last (m_undoStack s);
               s1 = s\<lparr>m_undoStack := butlast (m_undoStack s)\<rparr>;
               s2 = (case u_type u of
                       Insert \<Rightarrow> (case u_data u of [] \<Rightarrow> s1 | e # _ \<Rightarrow> removeEntry now e s1)
                     | Remove \<Rightarrow> (case u_data u of [] \<Rightarrow> s1 | e # _ \<Rightarrow> insertEntry now e s1)
                     | Edit \<Rightarrow> (case (u_data u, u_fields u) of
                                  (e # _, f # _) \<Rightarrow> snd (editEntry now e f s1)
                                | _ \<Rightarrow> s1)
                     | EditCategory \<Rightarrow> editEntries now (u_data u) (u_fields u) s1)
           in emit (UndoCountChanged (int (length (m_undoStack s2)))) s2)"

definition emptyDatabase :: database where
  "emptyDatabase = \<lparr>timelog = [], removed = Map.empty\<rparr>"

definition constructed :: worker where
  \<comment> \<open>The constructor, on a database file that does not exist yet.\<close>
  "constructed = \<lparr>db = emptyDatabase, m_size = 0, m_categories = {}, m_undoStack = [],
                   emitted = []\<rparr>"

definition init :: "worker \<Rightarrow> worker" where
  \<comment> \<open>\<^verbatim>\<open>init\<close> after the tables and triggers exist: \<^verbatim>\<open>updateSize\<close>, \<^verbatim>\<open>updateCategories\<close>.\<close>
  "init s = updateCategories defaultBegin defaultEnd (updateSize s)"

datatype command =
    CInsert TimeLogEntry
  | CImport "TimeLogEntry list"
  | CRemove TimeLogEntry
  | CEdit TimeLogEntry Fields
  | CEditCategory string string
  | CSync "TimeLogSyncData list" "TimeLogSyncData list"
  | CUndo

fun exec :: "int \<times> command \<Rightarrow> worker \<Rightarrow> worker" where
  \<comment> \<open>One command, with the clock reading it runs at.\<close>
  "exec (now, CInsert e) s = insert_cmd now e s"
| "exec (now, CImport es) s = import_cmd now es s"
| "exec (now, CRemove e) s = remove_cmd now e s"
| "exec (now, CEdit e f) s = edit_cmd now e f s"
| "exec (now, CEditCategory a b) s = editCategory now a b s"
| "exec (now, CSync us rs) s = sync now us rs s"
| "exec (now, CUndo) s = undo now s"

definition run :: "(int \<times> command) list \<Rightarrow> worker \<Rightarrow> worker" where
  "run cs s = fold exec cs s"

section \<open>Sample values\<close>

definition frame0 :: Undo where
  "frame0 = \<lparr>u_type = Insert, u_data = [], u_fields = []\<rparr>"

definition frame1 :: Undo where
  "frame1 = \<lparr>u_type = Remove, u_data = [], u_fields = []\<rparr>"

definition sampleEntry :: "QUuid \<Rightarrow> int \<Rightarrow> string \<Rightarrow> TimeLogEntry" where
  "sampleEntry u st c = \<lparr>uuid = u, startTime = Some st, category = c, comment = [],
                          durationTime = 0, precedingStart = None\<rparr>"

definition samplePeer :: "QUuid \<Rightarrow> int \<Rightarrow> string \<Rightarrow> int \<Rightarrow> TimeLogSyncData" where
  "samplePeer u st c m = \<lparr>entry = sampleEntry u st c, mTime = Some m\<rparr>"

definition oneEntry :: worker where
  \<comment> \<open>The worker after one insert: a live row at second 100 and one undo frame.\<close>
  "oneEntry = run [(1, CInsert (sampleEntry 1 100 ''a''))] constructed"

definition tombstoned :: worker where
  \<comment> \<open>The worker after a peer's removal of uuid 1 at millisecond 50 was merged.\<close>
  "tombstoned = run [(1, CSync [] [syncData_of_tombstone 1 50])] constructed"

definition threeEntries :: worker where
  \<comment> \<open>Three inserts, at seconds 100, 200 and 300.\<close>
  "threeEntries = run [(1, CInsert (sampleEntry 1 100 ''a'')), (2, CInsert (sampleEntry 2 200 ''b'')),
                       (3, CInsert (sampleEntry 3 300 ''b''))] constructed"

definition aheadEntry :: worker where
  \<comment> \<open>The worker after a merge of one peer entry whose mtime (millisecond 100) is ahead.\<close>
  "aheadEntry = run [(1, CSync [samplePeer 1 100 ''x'' 100] [])] constructed"

section \<open>Invariants of the tables\<close>

definition starts :: "row list \<Rightarrow> int set" where
  "starts rs = r_start ` set rs"

definition derived :: "row list \<Rightarrow> bool" where
  \<comment> \<open>Every row carries the distance to the next start, the row of maximum start \<open>-1\<close>.\<close>
  "derived rs =
     (\<forall>r \<in> set rs. r_duration r = Some (ifnull_minus (next_start rs (r_start r)) (r_start r)))"

definition wf_db :: "database \<Rightarrow> bool" where
  \<comment> \<open>The constraints of the schema, the derived durations, and no uuid in both tables.\<close>
  "wf_db d =
     (distinct (map r_start (timelog d)) \<and> distinct (map r_uuid (timelog d))
      \<and> derived (timelog d) \<and> (\<forall>r \<in> set (timelog d). removed d (r_uuid r) = None))"

section \<open>The locally authoritative record\<close>

definition live_mtime :: "database \<Rightarrow> QUuid \<Rightarrow> int option" where
  \<comment> \<open>The mtime of the live row of a uuid.\<close>
  "live_mtime d u = map_option r_mtime (find (\<lambda>r. r_uuid r = u) (timelog d))"

definition covered :: "database \<Rightarrow> QUuid \<Rightarrow> int \<Rightarrow> bool" where
  \<comment> \<open>The live row or the tombstone of the uuid has an mtime of at least \<open>m\<close>.\<close>
  "covered d u m =
     ((case live_mtime d u of None \<Rightarrow> False | Some k \<Rightarrow> m \<le> k)
      \<or> (case removed d u of None \<Rightarrow> False | Some k \<Rightarrow> m \<le> k))"

definition skips :: "worker \<Rightarrow> TimeLogSyncData \<Rightarrow> bool" where
  \<comment> \<open>The test \<^verbatim>\<open>!affected.isEmpty() && affected.constFirst().mTime >= entry.mTime\<close>.\<close>
  "skips s e =
     (case getSyncAffected (uuid (entry e)) s of
        [] \<Rightarrow> False
      | a # _ \<Rightarrow> toMSecsSinceEpoch (mTime e) \<le> toMSecsSinceEpoch (mTime a))"

definition peerKey :: "TimeLogSyncData \<Rightarrow> QUuid" where
  "peerKey e = uuid (entry e)"

definition classedInsert :: "worker \<Rightarrow> TimeLogSyncData \<Rightarrow> bool" where
  \<comment> \<open>The test \<^verbatim>\<open>affected.isEmpty() || !affected.constFirst().isValid()\<close>.\<close>
  "classedInsert s e =
     (case getSyncAffected (uuid (entry e)) s of [] \<Rightarrow> True | a # _ \<Rightarrow> \<not> isValid (entry a))"

definition buried :: "database \<Rightarrow> QUuid \<Rightarrow> int \<Rightarrow> bool" where
  \<comment> \<open>The tombstone of the uuid has an mtime of at least \<open>m\<close>.\<close>
  "buried d u m = (case removed d u of None \<Rightarrow> False | Some k \<Rightarrow> m \<le> k)"

definition stamp :: "TimeLogSyncData \<Rightarrow> int" where
  \<comment> \<open>The modification time that the classification pass compares.\<close>
  "stamp e = toMSecsSinceEpoch (mTime e)"

section \<open>Frame lemmas: what each step leaves alone\<close>

lemma emit_simps [simp]:
  "db (emit e s) = db s" "m_size (emit e s) = m_size s" "m_categories (emit e s) = m_categories s"
  "m_undoStack (emit e s) = m_undoStack s" "emitted (emit e s) = emitted s @ [e]"
  by (simp_all add: emit_def)

lemma setSize_frame [simp]:
  "db (setSize n s) = db s" "m_categories (setSize n s) = m_categories s"
  "m_undoStack (setSize n s) = m_undoStack s" "m_size (setSize n s) = n"
  by (simp_all add: setSize_def)

lemma addToCategories_frame [simp]:
  "db (addToCategories c s) = db s" "m_size (addToCategories c s) = m_size s"
  "m_undoStack (addToCategories c s) = m_undoStack s"
  "m_categories (addToCategories c s) = insert c (m_categories s)"
  by (auto simp: addToCategories_def)

lemma removeFromCategories_frame [simp]:
  "db (removeFromCategories c s) = db s" "m_size (removeFromCategories c s) = m_size s"
  "m_undoStack (removeFromCategories c s) = m_undoStack s"
  "m_categories (removeFromCategories c s) = m_categories s - {c}"
  by (auto simp: removeFromCategories_def)

lemma processFail_frame [simp]:
  "db (processFail s) = db s" "m_size (processFail s) = m_size s"
  "m_categories (processFail s) = m_categories s" "m_undoStack (processFail s) = []"
  "emitted (processFail s) = emitted s @ [UndoCountChanged 0, DataOutdated]"
  by (simp_all add: processFail_def)

lemma pushUndo_frame [simp]:
  "db (pushUndo u s) = db s" "m_size (pushUndo u s) = m_size s"
  "m_categories (pushUndo u s) = m_categories s"
  by (simp_all add: pushUndo_def Let_def)

lemma notifyUpdates_frame [simp]:
  "db (notifyUpdates sel f s) = db s" "m_size (notifyUpdates sel f s) = m_size s"
  "m_categories (notifyUpdates sel f s) = m_categories s"
  "m_undoStack (notifyUpdates sel f s) = m_undoStack s"
  by (simp_all add: notifyUpdates_def Let_def)

lemma notifyInsertUpdates_frame [simp]:
  "db (notifyInsertUpdates e s) = db s" "m_size (notifyInsertUpdates e s) = m_size s"
  "m_categories (notifyInsertUpdates e s) = m_categories s"
  "m_undoStack (notifyInsertUpdates e s) = m_undoStack s"
  by (simp_all add: notifyInsertUpdates_def Let_def)

lemma notifyRemoveUpdates_frame [simp]:
  "db (notifyRemoveUpdates e s) = db s" "m_size (notifyRemoveUpdates e s) = m_size s"
  "m_categories (notifyRemoveUpdates e s) = m_categories s"
  "m_undoStack (notifyRemoveUpdates e s) = m_undoStack s"
  by (simp_all add: notifyRemoveUpdates_def Let_def)

lemma notifyEditUpdates_frame [simp]:
  "db (notifyEditUpdates e f os s) = db s" "m_size (notifyEditUpdates e f os s) = m_size s"
  "m_categories (notifyEditUpdates e f os s) = m_categories s"
  "m_undoStack (notifyEditUpdates e f os s) = m_undoStack s"
  by (simp_all add: notifyEditUpdates_def Let_def)

lemma updateCategories_frame [simp]:
  "db (updateCategories b e s) = db s" "m_size (updateCategories b e s) = m_size s"
  "m_undoStack (updateCategories b e s) = m_undoStack s"
  by (simp_all add: updateCategories_def Let_def)

lemma insertData_undo [simp]: "m_undoStack (snd (insertData now d s)) = m_undoStack s"
  by (simp add: insertData_def split: option.splits prod.splits)

lemma removeData_undo [simp]: "m_undoStack (snd (removeData now d s)) = m_undoStack s"
  by (simp add: removeData_def split: prod.splits)

lemma editData_undo [simp]: "m_undoStack (snd (editData now d f s)) = m_undoStack s"
  by (simp add: editData_def split: option.splits)

lemma editCategoryData_undo [simp]:
  "m_undoStack (snd (editCategoryData now a b s)) = m_undoStack s"
  by (simp add: editCategoryData_def)

lemma run_all_undo:
  assumes "\<And>x s. m_undoStack (snd (f x s)) = m_undoStack s"
  shows "m_undoStack (snd (run_all f xs s)) = m_undoStack s"
proof (induction xs arbitrary: s)
  case Nil
  show ?case by simp
next
  case (Cons x xs)
  obtain b s1 where fx: "f x s = (b, s1)" by (cases "f x s")
  have "m_undoStack s1 = m_undoStack s" using assms [of x s] fx by simp
  then show ?case using Cons fx by (cases b) simp_all
qed

lemma insertEntry_undo_le: "length (m_undoStack (insertEntry now e s)) \<le> length (m_undoStack s)"
proof -
  obtain b s1 where r: "insertData now (toSyncData e) s = (b, s1)"
    by (cases "insertData now (toSyncData e) s")
  have "m_undoStack s1 = m_undoStack s"
    using insertData_undo [of now "toSyncData e" s] r by simp
  then show ?thesis using r by (cases b) (simp_all add: insertEntry_def)
qed

lemma removeEntry_undo_le: "length (m_undoStack (removeEntry now e s)) \<le> length (m_undoStack s)"
proof -
  obtain b s1 where r: "removeData now (toSyncData e) s = (b, s1)"
    by (cases "removeData now (toSyncData e) s")
  have "m_undoStack s1 = m_undoStack s"
    using removeData_undo [of now "toSyncData e" s] r by simp
  then show ?thesis using r by (cases b) (simp_all add: removeEntry_def)
qed

lemma editEntry_undo_le:
  "length (m_undoStack (snd (editEntry now e f s))) \<le> length (m_undoStack s)"
proof -
  obtain b s1 where r: "editData now (toSyncData e) f s = (b, s1)"
    by (cases "editData now (toSyncData e) f s")
  have "m_undoStack s1 = m_undoStack s"
    using editData_undo [of now "toSyncData e" f s] r by simp
  then show ?thesis using r by (cases b) (simp_all add: editEntry_def Let_def)
qed

lemma run_all_undo_le:
  assumes "\<And>x s. length (m_undoStack (snd (f x s))) \<le> length (m_undoStack s)"
  shows "length (m_undoStack (snd (run_all f xs s))) \<le> length (m_undoStack s)"
proof (induction xs arbitrary: s)
  case Nil
  show ?case by simp
next
  case (Cons x xs)
  obtain b s1 where fx: "f x s = (b, s1)" by (cases "f x s")
  have le: "length (m_undoStack s1) \<le> length (m_undoStack s)" using assms [of x s] fx by simp
  show ?case
  proof (cases b)
    case True
    then show ?thesis using Cons [of s1] le fx by simp
  next
    case False
    then show ?thesis using le fx by simp
  qed
qed

lemma editEntries_undo_le:
  "length (m_undoStack (editEntries now es fs s)) \<le> length (m_undoStack s)"
  unfolding editEntries_def
  by (rule run_all_undo_le) (simp add: split_def editEntry_undo_le)

lemma insertDataAll_undo [simp]:
  "m_undoStack (snd (insertDataAll now es s)) = m_undoStack s"
proof -
  obtain b s1 where r: "run_all (\<lambda>e. insertData now (toSyncData e)) es s = (b, s1)"
    by (cases "run_all (\<lambda>e. insertData now (toSyncData e)) es s")
  have "m_undoStack (snd (run_all (\<lambda>e. insertData now (toSyncData e)) es s)) = m_undoStack s"
    by (rule run_all_undo) simp
  then have "m_undoStack s1 = m_undoStack s" using r by simp
  then show ?thesis using r by (cases b) (simp_all add: insertDataAll_def)
qed

lemma import_cmd_undo_le: "length (m_undoStack (import_cmd now es s)) \<le> length (m_undoStack s)"
proof -
  obtain b s1 where r: "insertDataAll now es s = (b, s1)" by (cases "insertDataAll now es s")
  have "m_undoStack s1 = m_undoStack s" using insertDataAll_undo [of now es s] r by simp
  then show ?thesis using r by (cases b) (simp_all add: import_cmd_def)
qed

lemma fold_emit_frame [simp]:
  "db (fold (\<lambda>e. emit (g e)) xs s) = db s"
  "m_size (fold (\<lambda>e. emit (g e)) xs s) = m_size s"
  "m_categories (fold (\<lambda>e. emit (g e)) xs s) = m_categories s"
  "m_undoStack (fold (\<lambda>e. emit (g e)) xs s) = m_undoStack s"
  by (induction xs arbitrary: s) simp_all

lemma fold_notifyRemove_frame [simp]:
  "db (fold notifyRemoveUpdates xs s) = db s"
  "m_size (fold notifyRemoveUpdates xs s) = m_size s"
  "m_categories (fold notifyRemoveUpdates xs s) = m_categories s"
  "m_undoStack (fold notifyRemoveUpdates xs s) = m_undoStack s"
  by (induction xs arbitrary: s) simp_all

lemma fold_notifyInsert_frame [simp]:
  "db (fold notifyInsertUpdates xs s) = db s"
  "m_size (fold notifyInsertUpdates xs s) = m_size s"
  "m_categories (fold notifyInsertUpdates xs s) = m_categories s"
  "m_undoStack (fold notifyInsertUpdates xs s) = m_undoStack s"
  by (induction xs arbitrary: s) simp_all

lemma fold_notifyEdit_frame [simp]:
  "db (fold (\<lambda>(n, old). notifyEditUpdates (g n) (h n old) (k old)) xs s) = db s"
  "m_size (fold (\<lambda>(n, old). notifyEditUpdates (g n) (h n old) (k old)) xs s) = m_size s"
  "m_categories (fold (\<lambda>(n, old). notifyEditUpdates (g n) (h n old) (k old)) xs s) = m_categories s"
  "m_undoStack (fold (\<lambda>(n, old). notifyEditUpdates (g n) (h n old) (k old)) xs s) = m_undoStack s"
  by (induction xs arbitrary: s) (simp_all add: split_def)

lemma syncNotify_frame [simp]:
  "db (syncNotify r i un uo s) = db s"
  "m_size (syncNotify r i un uo s) = m_size s"
  "m_categories (syncNotify r i un uo s) = m_categories s"
  "m_undoStack (syncNotify r i un uo s) = m_undoStack s"
  by (simp_all add: syncNotify_def Let_def)

lemma syncData_undo [simp]:
  "m_undoStack (snd (syncData now r i un uo s)) = m_undoStack s"
proof -
  obtain b1 s1 where r1: "run_all (removeData now) r s = (b1, s1)"
    by (cases "run_all (removeData now) r s")
  obtain b2 s2 where r2: "run_all (insertData now) i s1 = (b2, s2)"
    by (cases "run_all (insertData now) i s1")
  obtain b3 s3 where r3: "run_all (\<lambda>e. editData now e AllFieldsMask) un s2 = (b3, s3)"
    by (cases "run_all (\<lambda>e. editData now e AllFieldsMask) un s2")
  have "m_undoStack (snd (run_all (removeData now) r s)) = m_undoStack s"
    by (rule run_all_undo) simp
  then have a: "m_undoStack s1 = m_undoStack s" using r1 by simp
  have "m_undoStack (snd (run_all (insertData now) i s1)) = m_undoStack s1"
    by (rule run_all_undo) simp
  then have b: "m_undoStack s2 = m_undoStack s" using r2 a by simp
  have "m_undoStack (snd (run_all (\<lambda>e. editData now e AllFieldsMask) un s2)) = m_undoStack s2"
    by (rule run_all_undo) simp
  then have c: "m_undoStack s3 = m_undoStack s" using r3 b by simp
  show ?thesis
    using r1 r2 r3 a b c
    by (cases b1; cases b2; cases b3) (simp_all add: syncData_def)
qed

lemma sync_undo [simp]: "m_undoStack (sync now us rs s) = m_undoStack s"
proof -
  obtain rn ro where c1: "classifyRemoved s rs = (rn, ro)" by (cases "classifyRemoved s rs")
  obtain ins insO un uo where c2: "classifyUpdated s us = ((ins, insO), (un, uo))"
    by (cases "classifyUpdated s us") auto
  obtain b s2 where r: "syncData now (removedMerged ro rn) ins un uo
      (emit (SyncStatsAvailable ro rn insO ins uo un) s) = (b, s2)"
    by (cases "syncData now (removedMerged ro rn) ins un uo
      (emit (SyncStatsAvailable ro rn insO ins uo un) s)")
  have "m_undoStack s2 = m_undoStack s"
    using syncData_undo [of now "removedMerged ro rn" ins un uo
        "emit (SyncStatsAvailable ro rn insO ins uo un) s"] r by simp
  then show ?thesis using c1 c2 r by (cases b) (simp_all add: sync_def)
qed

section \<open>The undo stack is bounded\<close>

lemma pushUndo_length:
  "length (m_undoStack s) \<le> 10 \<Longrightarrow> length (m_undoStack (pushUndo u s)) \<le> 10"
  by (simp add: pushUndo_def Let_def maxUndoSize_def)

lemma undo_length: "length (m_undoStack (undo now s)) \<le> length (m_undoStack s)"
proof (cases "m_undoStack s = []")
  case True
  then show ?thesis by (simp add: undo_def)
next
  case False
  let ?s1 = "s\<lparr>m_undoStack := butlast (m_undoStack s)\<rparr>"
  have l1: "length (m_undoStack ?s1) \<le> length (m_undoStack s)" by simp
  have "\<And>e. length (m_undoStack (removeEntry now e ?s1)) \<le> length (m_undoStack s)"
       "\<And>e. length (m_undoStack (insertEntry now e ?s1)) \<le> length (m_undoStack s)"
       "\<And>e f. length (m_undoStack (snd (editEntry now e f ?s1))) \<le> length (m_undoStack s)"
       "\<And>es fs. length (m_undoStack (editEntries now es fs ?s1)) \<le> length (m_undoStack s)"
    using l1 removeEntry_undo_le [of now _ ?s1] insertEntry_undo_le [of now _ ?s1]
      editEntry_undo_le [of now _ _ ?s1] editEntries_undo_le [of now _ _ ?s1]
    by (meson le_trans)+
  then show ?thesis using False
    by (simp add: undo_def Let_def split: UndoType.splits list.splits)
qed

lemma exec_undo_bounded:
  "length (m_undoStack s) \<le> 10 \<Longrightarrow> length (m_undoStack (exec c s)) \<le> 10"
proof (cases c)
  case (Pair now cmd)
  assume b: "length (m_undoStack s) \<le> 10"
  have p: "\<And>u. length (m_undoStack (pushUndo u s)) \<le> 10" by (rule pushUndo_length [OF b])
  show ?thesis
  proof (cases cmd)
    case (CInsert e)
    have "length (m_undoStack (insert_cmd now e s)) \<le> 10"
      unfolding insert_cmd_def by (rule le_trans [OF insertEntry_undo_le p])
    then show ?thesis using Pair CInsert by simp
  next
    case (CImport es)
    then show ?thesis using Pair b import_cmd_undo_le [of now es s] by simp
  next
    case (CRemove e)
    have "length (m_undoStack (remove_cmd now e s)) \<le> 10"
      unfolding remove_cmd_def by (rule le_trans [OF removeEntry_undo_le p])
    then show ?thesis using Pair CRemove by simp
  next
    case (CEdit e f)
    have "length (m_undoStack (edit_cmd now e f s)) \<le> 10"
      unfolding edit_cmd_def by (rule le_trans [OF editEntry_undo_le p])
    then show ?thesis using Pair CEdit by simp
  next
    case (CEditCategory a b')
    let ?p = "pushUndo \<lparr>u_type = EditCategory, u_data = getEntries a s,
                u_fields = replicate (length (getEntries a s)) {Category}\<rparr> s"
    obtain r s2 where e: "editCategoryData now a b' ?p = (r, s2)"
      by (cases "editCategoryData now a b' ?p")
    have "m_undoStack s2 = m_undoStack ?p" using editCategoryData_undo [of now a b' ?p] e by simp
    then have "length (m_undoStack s2) \<le> 10" using p by simp
    then have "length (m_undoStack (editCategory now a b' s)) \<le> 10"
      using e b by (cases r) (simp_all add: editCategory_def Let_def)
    then show ?thesis using Pair CEditCategory by simp
  next
    case (CSync us rs)
    then show ?thesis using Pair b by simp
  next
    case CUndo
    then show ?thesis using Pair b undo_length [of now s] by simp
  qed
qed

lemma run_undo_bounded:
  "length (m_undoStack s) \<le> 10 \<Longrightarrow> length (m_undoStack (run cs s)) \<le> 10"
  unfolding run_def
  by (induction cs arbitrary: s) (simp_all add: exec_undo_bounded)

text \<open>
  Claim C9. The undo stack never holds more than 10 frames, whatever commands ran since
  construction. A push onto a stack of 10 frames drops the oldest frame, keeps 10 frames
  and emits nothing; a push onto a shorter stack appends the frame and emits
  \<^verbatim>\<open>undoCountChanged\<close> with the new count.
\<close>

theorem undo_stack_bounded:
  "length (m_undoStack (run cs constructed)) \<le> 10
   \<and> (length (m_undoStack s) = 10 \<longrightarrow>
        m_undoStack (pushUndo u s) = tl (m_undoStack s) @ [u]
        \<and> length (m_undoStack (pushUndo u s)) = 10
        \<and> emitted (pushUndo u s) = emitted s)
   \<and> (length (m_undoStack s) < 10 \<longrightarrow>
        m_undoStack (pushUndo u s) = m_undoStack s @ [u]
        \<and> emitted (pushUndo u s)
            = emitted s @ [UndoCountChanged (int (length (m_undoStack s)) + 1)])"
proof (intro conjI impI)
  show "length (m_undoStack (run cs constructed)) \<le> 10"
    by (rule run_undo_bounded) (simp add: constructed_def)
next
  assume f: "length (m_undoStack s) = 10"
  then have ne: "m_undoStack s \<noteq> []" by auto
  show "m_undoStack (pushUndo u s) = tl (m_undoStack s) @ [u]"
    using f ne by (simp add: pushUndo_def Let_def maxUndoSize_def)
  show "length (m_undoStack (pushUndo u s)) = 10"
    using f by (simp add: pushUndo_def Let_def maxUndoSize_def)
  show "emitted (pushUndo u s) = emitted s"
    using f by (simp add: pushUndo_def Let_def maxUndoSize_def)
next
  assume l: "length (m_undoStack s) < 10"
  show "m_undoStack (pushUndo u s) = m_undoStack s @ [u]"
    using l by (simp add: pushUndo_def Let_def maxUndoSize_def)
  show "emitted (pushUndo u s)
            = emitted s @ [UndoCountChanged (int (length (m_undoStack s)) + 1)]"
    using l by (simp add: pushUndo_def Let_def maxUndoSize_def)
qed

theorem undo_stack_bounded_witness:
  "length (m_undoStack (constructed\<lparr>m_undoStack := replicate 10 frame0\<rparr>)) = 10
   \<and> m_undoStack (pushUndo frame1 (constructed\<lparr>m_undoStack := replicate 10 frame0\<rparr>))
       = replicate 9 frame0 @ [frame1]
   \<and> emitted (pushUndo frame1 (constructed\<lparr>m_undoStack := replicate 10 frame0\<rparr>)) = []
   \<and> length (m_undoStack constructed) < 10
   \<and> emitted (pushUndo frame1 constructed) = [UndoCountChanged 1]
   \<and> length (m_undoStack (run [(5, CUndo)] constructed)) \<le> 10"
  using undo_stack_bounded [of "[(5, CUndo)]" "constructed\<lparr>m_undoStack := replicate 10 frame0\<rparr>" frame1]
    undo_stack_bounded [of "[]" constructed frame1]
  by (simp add: constructed_def)

section \<open>Change signals\<close>

text \<open>
  The three incremental helpers emit exactly on a change; the wholesale rebuild
  \<^verbatim>\<open>updateCategories\<close> swaps the set in and emits without comparing.
\<close>

lemma change_signals:
  "emitted (setSize n s)
     = (if m_size (setSize n s) = m_size s then emitted s else emitted s @ [SizeChanged n])
   \<and> m_size (setSize n s) = n
   \<and> emitted (addToCategories c s)
     = (if m_categories (addToCategories c s) = m_categories s then emitted s
        else emitted s @ [CategoriesChanged (insert c (m_categories s))])
   \<and> m_categories (addToCategories c s) = insert c (m_categories s)
   \<and> emitted (removeFromCategories c s)
     = (if m_categories (removeFromCategories c s) = m_categories s then emitted s
        else emitted s @ [CategoriesChanged (m_categories s - {c})])
   \<and> m_categories (removeFromCategories c s) = m_categories s - {c}
   \<and> emitted (updateCategories b e s)
     = emitted s @ [CategoriesChanged (m_categories (updateCategories b e s))]"
proof (intro conjI)
  show "emitted (setSize n s)
     = (if m_size (setSize n s) = m_size s then emitted s else emitted s @ [SizeChanged n])"
    by (simp add: setSize_def)
  show "emitted (addToCategories c s)
     = (if m_categories (addToCategories c s) = m_categories s then emitted s
        else emitted s @ [CategoriesChanged (insert c (m_categories s))])"
    by (auto simp: addToCategories_def)
  show "emitted (removeFromCategories c s)
     = (if m_categories (removeFromCategories c s) = m_categories s then emitted s
        else emitted s @ [CategoriesChanged (m_categories s - {c})])"
    by (auto simp: removeFromCategories_def)
  show "emitted (updateCategories b e s)
     = emitted s @ [CategoriesChanged (m_categories (updateCategories b e s))]"
    by (simp add: updateCategories_def Let_def)
qed simp_all

text \<open>
  Claim C7 at the rebuild. \<^verbatim>\<open>init\<close> on an empty database leaves the category set empty
  and emits \<^verbatim>\<open>categoriesChanged\<close>. After a merge of an entry of category \<open>x\<close> whose
  mtime is ahead of the clock, renaming \<open>x\<close> at millisecond 50 changes no row (trigger
  \<^verbatim>\<open>check_update_timelog\<close> ignores the staler update), the rebuilt set is the previous
  set, and \<^verbatim>\<open>categoriesChanged\<close> is emitted all the same.
\<close>

theorem categoriesChanged_without_change:
  "m_categories constructed = {}
   \<and> m_categories (init constructed) = {}
   \<and> emitted (init constructed) = [CategoriesChanged {}]
   \<and> m_categories aheadEntry = {''x''}
   \<and> m_categories (exec (50, CEditCategory ''x'' ''z'') aheadEntry) = {''x''}
   \<and> map r_category (timelog (db (exec (50, CEditCategory ''x'' ''z'') aheadEntry))) = [''x'']
   \<and> emitted (exec (50, CEditCategory ''x'' ''z'') aheadEntry)
       = emitted aheadEntry @ [UndoCountChanged 1, CategoriesChanged {''x''}, DataOutdated]"
  by code_simp

section \<open>Renaming a category that has no entries\<close>

lemma editCategoryData_no_entries:
  assumes "oldName \<notin> set (map r_category (timelog (db s)))"
  shows "editCategoryData now oldName newName s = (False, removeFromCategories oldName s)"
proof -
  have "filter (\<lambda>r. r_category r = oldName) (timelog (db s)) = []"
    using assms by (auto simp: filter_empty_conv)
  then show ?thesis by (simp add: editCategoryData_def)
qed

lemma pushUndo_emitted:
  "emitted (pushUndo u s) = emitted s
   \<or> emitted (pushUndo u s) = emitted s @ [UndoCountChanged (int (length (m_undoStack s)) + 1)]"
  by (simp add: pushUndo_def Let_def)

lemma removeFromCategories_emitted:
  "emitted (removeFromCategories c s) = emitted s
   \<or> emitted (removeFromCategories c s) = emitted s @ [CategoriesChanged (m_categories s - {c})]"
  by (simp add: removeFromCategories_def)

text \<open>
  With a non-empty new name that differs from the old one, and no live entry in the old
  category, \<^verbatim>\<open>editCategory\<close> removes the old name from the category set, emits no
  \<^verbatim>\<open>error\<close> and leaves the database and the size alone.
\<close>

lemma editCategory_no_entries:
  assumes "newName \<noteq> []" and "oldName \<noteq> newName"
    and "oldName \<notin> set (map r_category (timelog (db s)))"
  shows "db (editCategory now oldName newName s) = db s
       \<and> m_size (editCategory now oldName newName s) = m_size s
       \<and> m_categories (editCategory now oldName newName s) = m_categories s - {oldName}
       \<and> (\<exists>es. emitted (editCategory now oldName newName s) = emitted s @ es
              \<and> (\<forall>m. Error m \<notin> set es))"
proof -
  let ?p = "pushUndo \<lparr>u_type = EditCategory, u_data = getEntries oldName s,
              u_fields = replicate (length (getEntries oldName s)) {Category}\<rparr> s"
  have nodb: "oldName \<notin> set (map r_category (timelog (db ?p)))" using assms(3) by simp
  have e: "editCategory now oldName newName s = processFail (removeFromCategories oldName ?p)"
    using assms(1,2) editCategoryData_no_entries [OF nodb, of now newName]
    by (simp add: editCategory_def Let_def)
  have ev: "\<exists>es. emitted (processFail (removeFromCategories oldName ?p)) = emitted s @ es
              \<and> (\<forall>m. Error m \<notin> set es)"
    using pushUndo_emitted [of "\<lparr>u_type = EditCategory, u_data = getEntries oldName s,
              u_fields = replicate (length (getEntries oldName s)) {Category}\<rparr>" s]
      removeFromCategories_emitted [of oldName ?p]
    by (elim disjE) simp_all
  show ?thesis unfolding e using ev by simp
qed

text \<open>
  Claim C6 at a rename of a category without entries. The worker holds one entry of
  category \<open>a\<close> and the undo frame of its insert; \<open>x\<close> is renamed to \<open>y\<close>. On this path
  \<^verbatim>\<open>editCategoryData\<close> returns false without an error, and \<^verbatim>\<open>editCategory\<close> answers false
  with \<^verbatim>\<open>processFail\<close>: the undo stack is cleared, and \<^verbatim>\<open>undoCountChanged(0)\<close> and
  \<^verbatim>\<open>dataOutdated\<close> are emitted; no row and no tombstone is touched.
\<close>

theorem editCategory_no_entries_runs_processFail:
  "''y'' \<noteq> [] \<and> ''x'' \<noteq> ''y'' \<and> ''x'' \<notin> set (map r_category (timelog (db oneEntry)))
   \<and> length (m_undoStack oneEntry) = 1
   \<and> m_undoStack (editCategory 2 ''x'' ''y'' oneEntry) = []
   \<and> emitted (editCategory 2 ''x'' ''y'' oneEntry)
       = emitted oneEntry @ [UndoCountChanged 2, UndoCountChanged 0, DataOutdated]
   \<and> timelog (db (editCategory 2 ''x'' ''y'' oneEntry)) = timelog (db oneEntry)
   \<and> m_categories (editCategory 2 ''x'' ''y'' oneEntry) = m_categories oneEntry"
  by code_simp

section \<open>Failure of a merge\<close>

lemma syncData_rollback:
  "\<not> fst (syncData now r i un uo s) \<Longrightarrow> db (snd (syncData now r i un uo s)) = db s"
  by (simp add: syncData_def split: prod.splits bool.splits)

text \<open>
  Claim C5 at a failing merge. The worker holds one entry and one undo frame; the peer
  sends two entries with the same start. The second insert violates the primary key:
  the transaction is rolled back and \<^verbatim>\<open>error\<close> is emitted, but \<^verbatim>\<open>sync\<close> does not run
  \<^verbatim>\<open>processFail\<close>: the undo stack keeps its frame, no \<^verbatim>\<open>dataOutdated\<close> is emitted, and
  \<^verbatim>\<open>m_size\<close> keeps counting the insert that was rolled back.
\<close>

theorem sync_failure_without_processFail:
  "timelog (db (sync 2 [samplePeer 2 200 ''b'' 5, samplePeer 3 200 ''c'' 6] [] oneEntry))
     = timelog (db oneEntry)
   \<and> Error SqlLastError
       \<in> set (emitted (sync 2 [samplePeer 2 200 ''b'' 5, samplePeer 3 200 ''c'' 6] [] oneEntry))
   \<and> DataOutdated
       \<notin> set (emitted (sync 2 [samplePeer 2 200 ''b'' 5, samplePeer 3 200 ''c'' 6] [] oneEntry))
   \<and> UndoCountChanged 0
       \<notin> set (emitted (sync 2 [samplePeer 2 200 ''b'' 5, samplePeer 3 200 ''c'' 6] [] oneEntry))
   \<and> length (m_undoStack (sync 2 [samplePeer 2 200 ''b'' 5, samplePeer 3 200 ''c'' 6] []
                oneEntry)) = 1
   \<and> m_size (sync 2 [samplePeer 2 200 ''b'' 5, samplePeer 3 200 ''c'' 6] [] oneEntry) = 2
   \<and> length (timelog (db (sync 2 [samplePeer 2 200 ''b'' 5, samplePeer 3 200 ''c'' 6] []
                oneEntry))) = 1"
  by code_simp

section \<open>Removing a uuid that has no live row\<close>

lemma notifyUpdates_emitted:
  "emitted (notifyUpdates sel f s) = emitted s
   \<or> (\<exists>es fs. emitted (notifyUpdates sel f s) = emitted s @ [DataUpdated es fs])"
  by (simp add: notifyUpdates_def Let_def)

lemma sql_delete_timelog_absent:
  "u \<notin> set (map r_uuid rs) \<Longrightarrow> sql_delete_timelog u rs = rs"
proof -
  assume "u \<notin> set (map r_uuid rs)"
  then have "find (\<lambda>r. r_uuid r = u) rs = None" by (auto simp: find_None_iff)
  then show ?thesis by (simp add: sql_delete_timelog_def)
qed

lemma getEntry_absent:
  "u \<notin> set (map r_uuid (timelog (db s))) \<Longrightarrow> getEntry u s = emptyEntry"
proof -
  assume "u \<notin> set (map r_uuid (timelog (db s)))"
  then have "filter (\<lambda>r. r_uuid r = u) (timelog (db s)) = []"
    by (auto simp: filter_empty_conv)
  then show ?thesis by (simp add: getEntry_def getHistory_def start_asc_def)
qed

text \<open>
  Claim C10, as amended. Removing an entry whose uuid has no live row reports no error
  and does not run the failure path: the undo frame, holding the empty (invalid) entry,
  stays pushed, \<^verbatim>\<open>dataRemoved\<close> is emitted and the live rows are unchanged. The tombstone
  is written with \<open>mtime = now\<close> and the size is decremented by one, unless a tombstone
  of that uuid with a strictly greater mtime exists: then the trigger ignores the write,
  and the tombstones and the size are unchanged.
\<close>

theorem remove_without_live_row:
  assumes "uuid data \<notin> set (map r_uuid (timelog (db s)))"
  shows "m_undoStack (remove_cmd now data s)
           = m_undoStack (pushUndo \<lparr>u_type = Remove, u_data = [emptyEntry], u_fields = []\<rparr> s)
       \<and> \<not> isValid emptyEntry
       \<and> timelog (db (remove_cmd now data s)) = timelog (db s)
       \<and> removed (db (remove_cmd now data s))
           = (if check_insert_removed (db s) (uuid data) now then removed (db s)
              else (removed (db s))(uuid data \<mapsto> now))
       \<and> m_size (remove_cmd now data s)
           = (if check_insert_removed (db s) (uuid data) now then m_size s else m_size s - 1)
       \<and> (\<exists>es. emitted (remove_cmd now data s) = emitted s @ es
              \<and> DataRemoved data \<in> set es \<and> (\<forall>m. Error m \<notin> set es)
              \<and> DataOutdated \<notin> set es)"
proof -
  let ?fr = "\<lparr>u_type = Remove, u_data = [emptyEntry], u_fields = []\<rparr>"
  let ?p = "pushUndo ?fr s"
  obtain n d where q: "sql_insert_removed (uuid data) now (db s) = (n, d)"
    by (cases "sql_insert_removed (uuid data) now (db s)")
  let ?s1 = "setSize (m_size s - int n) (?p\<lparr>db := d\<rparr>)"
  have rd: "removeData now (toSyncData data) ?p = (True, ?s1)"
    using q by (simp add: removeData_def toSyncData_def mtime_or_now_def)
  have e: "remove_cmd now data s = notifyRemoveUpdates data (emit (DataRemoved data) ?s1)"
    using assms rd by (simp add: remove_cmd_def removeEntry_def getEntry_absent)
  have nd: "(n, d) = (if check_insert_removed (db s) (uuid data) now then (0, db s)
              else (1, \<lparr>timelog = timelog (db s), removed = (removed (db s))(uuid data \<mapsto> now)\<rparr>))"
    using q sql_delete_timelog_absent [OF assms]
    by (auto simp: sql_insert_removed_def split: if_splits)
  have ev1: "emitted ?p = emitted s
      \<or> emitted ?p = emitted s @ [UndoCountChanged (int (length (m_undoStack s)) + 1)]"
    by (rule pushUndo_emitted)
  have ev2: "emitted ?s1 = emitted ?p \<or> emitted ?s1 = emitted ?p @ [SizeChanged (m_size s - int n)]"
    by (simp add: setSize_def)
  have ev3: "emitted (notifyRemoveUpdates data (emit (DataRemoved data) ?s1))
        = emitted ?s1 @ [DataRemoved data]
      \<or> (\<exists>es fs. emitted (notifyRemoveUpdates data (emit (DataRemoved data) ?s1))
        = emitted ?s1 @ [DataRemoved data] @ [DataUpdated es fs])"
    using notifyUpdates_emitted [of _ _ "emit (DataRemoved data) ?s1"]
    by (simp add: notifyRemoveUpdates_def Let_def)
  have ev: "\<exists>es. emitted (remove_cmd now data s) = emitted s @ es
              \<and> DataRemoved data \<in> set es \<and> (\<forall>m. Error m \<notin> set es) \<and> DataOutdated \<notin> set es"
    unfolding e using ev1 ev2 ev3 by (elim disjE exE) simp_all
  have "\<not> isValid emptyEntry" by (simp add: isValid_def emptyEntry_def)
  moreover have "timelog (db (remove_cmd now data s)) = timelog (db s)"
    unfolding e using nd by (simp split: if_splits)
  moreover have "removed (db (remove_cmd now data s))
           = (if check_insert_removed (db s) (uuid data) now then removed (db s)
              else (removed (db s))(uuid data \<mapsto> now))"
    unfolding e using nd by (simp split: if_splits)
  moreover have "m_size (remove_cmd now data s)
           = (if check_insert_removed (db s) (uuid data) now then m_size s else m_size s - 1)"
    unfolding e using nd by (simp split: if_splits)
  moreover have "m_undoStack (remove_cmd now data s) = m_undoStack ?p"
    unfolding e by simp
  ultimately show ?thesis using ev by simp
qed

theorem remove_without_live_row_witness:
  "uuid (sampleEntry 2 300 ''b'') \<notin> set (map r_uuid (timelog (db oneEntry)))
   \<and> timelog (db (remove_cmd 7 (sampleEntry 2 300 ''b'') oneEntry)) = timelog (db oneEntry)
   \<and> removed (db (remove_cmd 7 (sampleEntry 2 300 ''b'') oneEntry)) 2 = Some 7
   \<and> m_size (remove_cmd 7 (sampleEntry 2 300 ''b'') oneEntry) = m_size oneEntry - 1"
proof -
  have h: "uuid (sampleEntry 2 300 ''b'') \<notin> set (map r_uuid (timelog (db oneEntry)))"
    by code_simp
  have c: "\<not> check_insert_removed (db oneEntry) (uuid (sampleEntry 2 300 ''b'')) 7"
    by code_simp
  show ?thesis
    using remove_without_live_row [OF h, of 7] h c by (simp add: sampleEntry_def)
qed

theorem remove_newer_tombstone_counterexample:
  "uuid (sampleEntry 1 100 ''a'') \<notin> set (map r_uuid (timelog (db tombstoned)))
   \<and> removed (db tombstoned) 1 = Some 50
   \<and> removed (db (remove_cmd 7 (sampleEntry 1 100 ''a'') tombstoned)) 1 = Some 50
   \<and> m_size (remove_cmd 7 (sampleEntry 1 100 ''a'') tombstoned) = m_size tombstoned"
  by code_simp

section \<open>An insert against a tombstone\<close>

lemma insertData_suppressed:
  assumes "removed (db s) (uuid (entry e)) = Some tm" and "mtime_or_now now e < tm"
  shows "insertData now e s = (True, addToCategories (category (entry e)) s)"
proof -
  have "sql_insert_timelog (uuid (entry e)) (toTime_t (startTime (entry e)))
          (category (entry e)) (comment (entry e)) (mtime_or_now now e) (db s) = Some (0, db s)"
    using assms by (simp add: sql_insert_timelog_def check_insert_timelog_def)
  then show ?thesis by (simp add: insertData_def setSize_def)
qed

lemma addToCategories_emitted:
  "emitted (addToCategories c s) = emitted s
   \<or> emitted (addToCategories c s) = emitted s @ [CategoriesChanged (insert c (m_categories s))]"
  by (simp add: addToCategories_def)

lemma notifyInsertUpdates_emitted:
  "emitted (notifyInsertUpdates data s) = emitted s
   \<or> (\<exists>es fs. emitted (notifyInsertUpdates data s) = emitted s @ [DataUpdated es fs])"
  unfolding notifyInsertUpdates_def Let_def by (rule notifyUpdates_emitted)

text \<open>
  Claim C2, as amended. When the uuid of the inserted entry has a tombstone whose mtime is
  strictly greater than the mtime of the insert, inserting the entry changes neither the
  timelog table nor the removed table and raises no error. This holds of
  \<^verbatim>\<open>insertData\<close>, which import and sync run with the record's own mtime, and of the
  command \<^verbatim>\<open>insert\<close>, which runs it with the current time.
\<close>

theorem insert_suppressed_by_tombstone:
  "(removed (db s) (uuid (entry e)) = Some tm \<and> mtime_or_now now e < tm \<longrightarrow>
       fst (insertData now e s)
     \<and> db (snd (insertData now e s)) = db s
     \<and> m_size (snd (insertData now e s)) = m_size s
     \<and> (\<exists>es. emitted (snd (insertData now e s)) = emitted s @ es
            \<and> (\<forall>m. Error m \<notin> set es)))
   \<and> (removed (db s) (uuid data) = Some tm \<and> now < tm \<longrightarrow>
       db (insert_cmd now data s) = db s
     \<and> m_size (insert_cmd now data s) = m_size s
     \<and> (\<exists>es. emitted (insert_cmd now data s) = emitted s @ es
            \<and> (\<forall>m. Error m \<notin> set es)))"
proof (intro conjI impI)
  assume h: "removed (db s) (uuid (entry e)) = Some tm \<and> mtime_or_now now e < tm"
  then have r: "insertData now e s = (True, addToCategories (category (entry e)) s)"
    using insertData_suppressed by blast
  show "fst (insertData now e s)" unfolding r by simp
  show "db (snd (insertData now e s)) = db s" unfolding r by simp
  show "m_size (snd (insertData now e s)) = m_size s" unfolding r by simp
  show "\<exists>es. emitted (snd (insertData now e s)) = emitted s @ es \<and> (\<forall>m. Error m \<notin> set es)"
    unfolding r using addToCategories_emitted [of "category (entry e)" s]
    by (elim disjE) simp_all
next
  assume h: "removed (db s) (uuid data) = Some tm \<and> now < tm"
  let ?p = "pushUndo \<lparr>u_type = Insert, u_data = [data], u_fields = []\<rparr> s"
  let ?c = "addToCategories (category data) ?p"
  have "removed (db ?p) (uuid (entry (toSyncData data))) = Some tm"
    and "mtime_or_now now (toSyncData data) < tm"
    using h by (simp_all add: toSyncData_def mtime_or_now_def)
  then have "insertData now (toSyncData data) ?p
               = (True, addToCategories (category (entry (toSyncData data))) ?p)"
    by (rule insertData_suppressed)
  then have r: "insertData now (toSyncData data) ?p = (True, ?c)"
    by (simp add: toSyncData_def)
  have e: "insert_cmd now data s = notifyInsertUpdates data (emit (DataInserted data) ?c)"
    using r by (simp add: insert_cmd_def insertEntry_def)
  show "db (insert_cmd now data s) = db s" unfolding e by simp
  show "m_size (insert_cmd now data s) = m_size s" unfolding e by simp
  have ev1: "emitted ?p = emitted s
      \<or> emitted ?p = emitted s @ [UndoCountChanged (int (length (m_undoStack s)) + 1)]"
    by (rule pushUndo_emitted)
  have ev2: "emitted ?c = emitted ?p
      \<or> emitted ?c = emitted ?p @ [CategoriesChanged (insert (category data) (m_categories ?p))]"
    by (rule addToCategories_emitted)
  have ev3: "emitted (notifyInsertUpdates data (emit (DataInserted data) ?c))
        = emitted ?c @ [DataInserted data]
      \<or> (\<exists>es fs. emitted (notifyInsertUpdates data (emit (DataInserted data) ?c))
        = emitted ?c @ [DataInserted data] @ [DataUpdated es fs])"
    using notifyInsertUpdates_emitted [of data "emit (DataInserted data) ?c"] by simp
  show "\<exists>es. emitted (insert_cmd now data s) = emitted s @ es \<and> (\<forall>m. Error m \<notin> set es)"
    unfolding e using ev1 ev2 ev3 by (elim disjE exE) simp_all
qed

theorem insert_suppressed_by_tombstone_witness:
  "removed (db tombstoned) (uuid (entry (samplePeer 1 100 ''a'' 49))) = Some 50
   \<and> mtime_or_now 7 (samplePeer 1 100 ''a'' 49) < 50
   \<and> fst (insertData 7 (samplePeer 1 100 ''a'' 49) tombstoned)
   \<and> db (snd (insertData 7 (samplePeer 1 100 ''a'' 49) tombstoned)) = db tombstoned
   \<and> removed (db tombstoned) (uuid (sampleEntry 1 100 ''a'')) = Some 50
   \<and> (7::int) < 50
   \<and> db (insert_cmd 7 (sampleEntry 1 100 ''a'') tombstoned) = db tombstoned"
proof -
  have h1: "removed (db tombstoned) (uuid (entry (samplePeer 1 100 ''a'' 49))) = Some 50"
    by code_simp
  have h2: "mtime_or_now 7 (samplePeer 1 100 ''a'' 49) < 50"
    by code_simp
  have h3: "removed (db tombstoned) (uuid (sampleEntry 1 100 ''a'')) = Some 50"
    by code_simp
  show ?thesis
    using insert_suppressed_by_tombstone
      [of tombstoned "samplePeer 1 100 ''a'' 49" 50 7 "sampleEntry 1 100 ''a''"]
      h1 h2 h3 by simp
qed

theorem insert_equal_mtime_counterexample:
  "removed (db tombstoned) (uuid (entry (samplePeer 1 100 ''a'' 50))) = Some 50
   \<and> mtime_or_now 7 (samplePeer 1 100 ''a'' 50) = 50
   \<and> timelog (db tombstoned) = []
   \<and> map r_uuid (timelog (db (snd (insertData 7 (samplePeer 1 100 ''a'' 50) tombstoned)))) = [1]
   \<and> removed (db (snd (insertData 7 (samplePeer 1 100 ''a'' 50) tombstoned))) 1 = None"
  by code_simp

text \<open>
  An ignored insert is not silent. Against the tombstone of millisecond 50, the command
  \<^verbatim>\<open>insert\<close> at millisecond 7 writes no row, yet \<^verbatim>\<open>insertData\<close> adds the category and
  \<^verbatim>\<open>insertEntry\<close> reports the entry as inserted.
\<close>

lemma insert_suppressed_still_emits:
  "removed (db tombstoned) 1 = Some 50
   \<and> timelog (db (insert_cmd 7 (sampleEntry 1 100 ''a'') tombstoned)) = []
   \<and> m_categories tombstoned = {}
   \<and> m_categories (insert_cmd 7 (sampleEntry 1 100 ''a'') tombstoned) = {''a''}
   \<and> emitted (insert_cmd 7 (sampleEntry 1 100 ''a'') tombstoned)
       = emitted tombstoned @ [UndoCountChanged 1, CategoriesChanged {''a''},
                               DataInserted (sampleEntry 1 100 ''a'')]"
  by code_simp

section \<open>The history before an instant\<close>

lemma last_of_sorted:
  fixes ys :: "row list"
  assumes so: "sorted (map r_start ys)" and di: "distinct (map r_start ys)"
  shows "sorted_wrt (\<lambda>a b. r_start a < r_start b) (drop k ys)
       \<and> (\<forall>r \<in> set ys. r \<notin> set (drop k ys) \<longrightarrow> (\<forall>q \<in> set (drop k ys). r_start r < r_start q))"
proof -
  have split: "ys = take k ys @ drop k ys" by simp
  have so2: "sorted (map r_start (take k ys) @ map r_start (drop k ys))"
    using so by (metis append_take_drop_id map_append)
  have di2: "distinct (map r_start (take k ys) @ map r_start (drop k ys))"
    using di by (metis append_take_drop_id map_append)
  have le: "\<forall>a \<in> set (take k ys). \<forall>b \<in> set (drop k ys). r_start a \<le> r_start b"
    using so2 by (auto simp: sorted_append)
  have ne: "\<forall>a \<in> set (take k ys). \<forall>b \<in> set (drop k ys). r_start a \<noteq> r_start b"
    using di2 by auto
  have sd: "sorted (map r_start (drop k ys))" using so2 by (simp add: sorted_append)
  have dd: "distinct (map r_start (drop k ys))" using di2 by simp
  have "sorted_wrt (<) (map r_start (drop k ys))"
    using sd dd by (simp add: strict_sorted_iff)
  then have s1: "sorted_wrt (\<lambda>a b. r_start a < r_start b) (drop k ys)"
    by (simp add: sorted_wrt_map)
  have "\<forall>r \<in> set ys. r \<notin> set (drop k ys) \<longrightarrow> r \<in> set (take k ys)"
    by (metis Un_iff append_take_drop_id set_append)
  then have s2: "\<forall>r \<in> set ys. r \<notin> set (drop k ys) \<longrightarrow>
                  (\<forall>q \<in> set (drop k ys). r_start r < r_start q)"
    using le ne by (meson order_le_imp_less_or_eq)
  show ?thesis using s1 s2 by simp
qed

lemma distinct_map_filter_start:
  "distinct (map r_start rs) \<Longrightarrow> distinct (map r_start (filter P rs))"
  by (simp add: distinct_map_filter)

lemma distinct_map_sort_key_start:
  "distinct (map r_start rs) \<Longrightarrow> distinct (map r_start (sort_key r_start rs))"
  by (metis distinct_map distinct_sort set_sort)

text \<open>
  The bound of the query is \<^verbatim>\<open>until.toTime_t()\<close>: with the primary key on start, the rows
  selected are strictly ascending by start, all start before that bound, there are as many
  as the limit or else all that exist, and every other row before the bound starts earlier
  than each selected one.
\<close>

lemma getHistoryBefore_bound:
  assumes "distinct (map r_start (timelog (db s)))"
  shows "\<exists>sel.
       getHistoryBefore rid limit until s
         = emit (HistoryRequestCompleted (getHistory (timelog (db s)) sel) rid) s
     \<and> sorted_wrt (\<lambda>a b. r_start a < r_start b) sel
     \<and> set sel \<subseteq> {r \<in> set (timelog (db s)). r_start r < toTime_t until}
     \<and> length sel
         = min limit (length (filter (\<lambda>r. r_start r < toTime_t until) (timelog (db s))))
     \<and> (\<forall>r \<in> set (timelog (db s)). r_start r < toTime_t until \<and> r \<notin> set sel
           \<longrightarrow> (\<forall>q \<in> set sel. r_start r < r_start q))"
proof -
  let ?xs = "filter (\<lambda>r. r_start r < toTime_t until) (timelog (db s))"
  let ?ys = "sort_key r_start ?xs"
  let ?sel = "drop (length ?ys - limit) ?ys"
  have so: "sorted (map r_start ?ys)" by simp
  have di: "distinct (map r_start ?ys)"
    using assms by (simp add: distinct_map_filter_start distinct_map_sort_key_start)
  have sy: "set ?ys = {r \<in> set (timelog (db s)). r_start r < toTime_t until}" by auto
  have r: "rev (take limit (rev ?ys)) = ?sel" by (simp add: rev_take)
  have "rev (getHistory (timelog (db s)) (take limit (start_desc ?xs)))
          = getHistory (timelog (db s)) ?sel"
    using r by (simp add: getHistory_def start_desc_def rev_map)
  then have e: "getHistoryBefore rid limit until s
         = emit (HistoryRequestCompleted (getHistory (timelog (db s)) ?sel) rid) s"
    by (simp add: getHistoryBefore_def Let_def)
  have a: "sorted_wrt (\<lambda>a b. r_start a < r_start b) ?sel"
    and b: "\<forall>r \<in> set ?ys. r \<notin> set ?sel \<longrightarrow> (\<forall>q \<in> set ?sel. r_start r < r_start q)"
    using last_of_sorted [OF so di, of "length ?ys - limit"] by blast+
  have c: "set ?sel \<subseteq> {r \<in> set (timelog (db s)). r_start r < toTime_t until}"
    using sy set_drop_subset [of "length ?ys - limit" ?ys] by blast
  have d: "length ?sel = min limit (length ?xs)" by auto
  have b': "\<forall>r \<in> set (timelog (db s)). r_start r < toTime_t until \<and> r \<notin> set ?sel
           \<longrightarrow> (\<forall>q \<in> set ?sel. r_start r < r_start q)"
    using b sy by blast
  show ?thesis using e a c d b' by blast
qed

text \<open>
  Claim C8, as amended. For an instant \<open>t\<close> that is a valid date of whole seconds
  with \<open>0 \<le> t < 4294967295\<close>, \<^verbatim>\<open>getHistoryBefore(id, L, t)\<close> emits exactly one signal,
  \<^verbatim>\<open>historyRequestCompleted\<close> with the same id, carrying the entries of the \<open>L\<close> rows
  with the largest start strictly less than \<open>t\<close> (all of them if fewer exist), ascending
  by start.
\<close>

theorem getHistoryBefore_largest:
  assumes "distinct (map r_start (timelog (db s)))"
    and "0 \<le> t" and "t < 4294967295"
  shows "\<exists>sel.
       getHistoryBefore rid limit (Some t) s
         = emit (HistoryRequestCompleted (getHistory (timelog (db s)) sel) rid) s
     \<and> sorted_wrt (\<lambda>a b. r_start a < r_start b) sel
     \<and> set sel \<subseteq> {r \<in> set (timelog (db s)). r_start r < t}
     \<and> length sel = min limit (length (filter (\<lambda>r. r_start r < t) (timelog (db s))))
     \<and> (\<forall>r \<in> set (timelog (db s)). r_start r < t \<and> r \<notin> set sel
           \<longrightarrow> (\<forall>q \<in> set sel. r_start r < r_start q))"
proof -
  have t: "toTime_t (Some t) = t" using assms(2,3) by (simp add: toTime_t_def)
  show ?thesis using getHistoryBefore_bound [OF assms(1), of rid limit "Some t"] unfolding t .
qed

theorem getHistoryBefore_largest_witness:
  "distinct (map r_start (timelog (db threeEntries)))
   \<and> (0::int) \<le> 300 \<and> (300::int) < 4294967295
   \<and> (\<exists>sel. getHistoryBefore 9 1 (Some 300) threeEntries
         = emit (HistoryRequestCompleted (getHistory (timelog (db threeEntries)) sel) 9)
             threeEntries
        \<and> length sel
            = min 1 (length (filter (\<lambda>r. r_start r < 300) (timelog (db threeEntries))))
        \<and> set sel \<subseteq> {r \<in> set (timelog (db threeEntries)). r_start r < 300})
   \<and> last (emitted (getHistoryBefore 9 1 (Some 300) threeEntries))
       = HistoryRequestCompleted
           [\<lparr>uuid = 2, startTime = Some 200, category = ''b'', comment = [],
             durationTime = 100, precedingStart = Some 100\<rparr>] 9"
proof -
  have h: "distinct (map r_start (timelog (db threeEntries)))" by code_simp
  have v: "last (emitted (getHistoryBefore 9 1 (Some 300) threeEntries))
       = HistoryRequestCompleted
           [\<lparr>uuid = 2, startTime = Some 200, category = ''b'', comment = [],
             durationTime = 100, precedingStart = Some 100\<rparr>] 9"
    by code_simp
  have r: "(0::int) \<le> 300" "(300::int) < 4294967295" by simp_all
  have e: "\<exists>sel. getHistoryBefore 9 1 (Some 300) threeEntries
         = emit (HistoryRequestCompleted (getHistory (timelog (db threeEntries)) sel) 9)
             threeEntries
        \<and> length sel
            = min 1 (length (filter (\<lambda>r. r_start r < 300) (timelog (db threeEntries))))
        \<and> set sel \<subseteq> {r \<in> set (timelog (db threeEntries)). r_start r < 300}"
    using getHistoryBefore_largest [OF h r, of 9 1] by blast
  show ?thesis by (intro conjI) (rule h r e v)+
qed

text \<open>
  An \<^verbatim>\<open>until\<close> before 1970 (as one after 2106, or an invalid date) is bound as
  \<^verbatim>\<open>uint(-1)\<close>: the three latest rows are delivered although none starts before it.
\<close>

theorem getHistoryBefore_out_of_range_counterexample:
  "map r_start (timelog (db threeEntries)) = [100, 200, 300]
   \<and> last (emitted (getHistoryBefore 9 3 (Some (- 5)) threeEntries))
       = HistoryRequestCompleted
           [\<lparr>uuid = 1, startTime = Some 100, category = ''a'', comment = [],
             durationTime = 100, precedingStart = Some 0\<rparr>,
            \<lparr>uuid = 2, startTime = Some 200, category = ''b'', comment = [],
             durationTime = 100, precedingStart = Some 100\<rparr>,
            \<lparr>uuid = 3, startTime = Some 300, category = ''b'', comment = [],
             durationTime = - 1, precedingStart = Some 200\<rparr>] 9"
  by code_simp

section \<open>Neighbours in the timeline\<close>

lemma next_start_None_iff:
  "next_start rs x = None \<longleftrightarrow> (\<forall>s \<in> starts rs. s \<le> x)"
proof -
  let ?ys = "filter (\<lambda>s. x < s) (map r_start rs)"
  have sy: "set ?ys = {s \<in> starts rs. x < s}" by (auto simp: starts_def)
  have "next_start rs x = None \<longleftrightarrow> ?ys = []" by (simp add: next_start_def Let_def)
  also have "\<dots> \<longleftrightarrow> set ?ys = {}" by (simp only: set_empty)
  also have "\<dots> \<longleftrightarrow> (\<forall>s \<in> starts rs. s \<le> x)" unfolding sy by (auto simp: not_less)
  finally show ?thesis .
qed

lemma next_start_Some_iff:
  "next_start rs x = Some m \<longleftrightarrow>
     m \<in> starts rs \<and> x < m \<and> (\<forall>s \<in> starts rs. x < s \<longrightarrow> m \<le> s)"
proof -
  let ?ys = "filter (\<lambda>s. x < s) (map r_start rs)"
  have sy: "\<And>s. s \<in> set ?ys \<longleftrightarrow> s \<in> starts rs \<and> x < s" by (simp add: starts_def)
  show ?thesis
  proof (cases "?ys = []")
    case True
    have n: "next_start rs x = None" using True by (simp add: next_start_def)
    have "\<And>s. s \<notin> set ?ys" using True by simp
    then have "\<not> (m \<in> starts rs \<and> x < m)" using sy by blast
    then show ?thesis using n by auto
  next
    case False
    then have ne: "set ?ys \<noteq> {}" by (simp only: set_empty not_False_eq_True)
    have fin: "finite (set ?ys)" by (rule finite_set)
    have n: "next_start rs x = Some (Min (set ?ys))" using False by (simp add: next_start_def)
    have mem: "Min (set ?ys) \<in> starts rs \<and> x < Min (set ?ys)"
      using Min_in [OF fin ne] sy by blast
    have le: "\<And>s. s \<in> starts rs \<Longrightarrow> x < s \<Longrightarrow> Min (set ?ys) \<le> s"
      using Min_le [OF fin] sy by blast
    show ?thesis
    proof
      assume "next_start rs x = Some m"
      then have m: "m = Min (set ?ys)" using n by simp
      show "m \<in> starts rs \<and> x < m \<and> (\<forall>s \<in> starts rs. x < s \<longrightarrow> m \<le> s)"
        using mem le unfolding m by blast
    next
      assume a: "m \<in> starts rs \<and> x < m \<and> (\<forall>s \<in> starts rs. x < s \<longrightarrow> m \<le> s)"
      have "Min (set ?ys) \<le> m" using le a by blast
      moreover have "m \<le> Min (set ?ys)" using a mem by blast
      ultimately show "next_start rs x = Some m" using n by simp
    qed
  qed
qed

lemma prev_start_None_iff:
  "prev_start rs x = None \<longleftrightarrow> (\<forall>s \<in> starts rs. x \<le> s)"
proof -
  let ?ys = "filter (\<lambda>s. s < x) (map r_start rs)"
  have sy: "set ?ys = {s \<in> starts rs. s < x}" by (auto simp: starts_def)
  have "prev_start rs x = None \<longleftrightarrow> ?ys = []" by (simp add: prev_start_def Let_def)
  also have "\<dots> \<longleftrightarrow> set ?ys = {}" by (simp only: set_empty)
  also have "\<dots> \<longleftrightarrow> (\<forall>s \<in> starts rs. x \<le> s)" unfolding sy by (auto simp: not_less)
  finally show ?thesis .
qed

lemma prev_start_Some_iff:
  "prev_start rs x = Some m \<longleftrightarrow>
     m \<in> starts rs \<and> m < x \<and> (\<forall>s \<in> starts rs. s < x \<longrightarrow> s \<le> m)"
proof -
  let ?ys = "filter (\<lambda>s. s < x) (map r_start rs)"
  have sy: "\<And>s. s \<in> set ?ys \<longleftrightarrow> s \<in> starts rs \<and> s < x" by (simp add: starts_def)
  show ?thesis
  proof (cases "?ys = []")
    case True
    have n: "prev_start rs x = None" using True by (simp add: prev_start_def)
    have "\<And>s. s \<notin> set ?ys" using True by simp
    then have "\<not> (m \<in> starts rs \<and> m < x)" using sy by blast
    then show ?thesis using n by auto
  next
    case False
    then have ne: "set ?ys \<noteq> {}" by (simp only: set_empty not_False_eq_True)
    have fin: "finite (set ?ys)" by (rule finite_set)
    have n: "prev_start rs x = Some (Max (set ?ys))" using False by (simp add: prev_start_def)
    have mem: "Max (set ?ys) \<in> starts rs \<and> Max (set ?ys) < x"
      using Max_in [OF fin ne] sy by blast
    have ge: "\<And>s. s \<in> starts rs \<Longrightarrow> s < x \<Longrightarrow> s \<le> Max (set ?ys)"
      using Max_ge [OF fin] sy by blast
    show ?thesis
    proof
      assume "prev_start rs x = Some m"
      then have m: "m = Max (set ?ys)" using n by simp
      show "m \<in> starts rs \<and> m < x \<and> (\<forall>s \<in> starts rs. s < x \<longrightarrow> s \<le> m)"
        using mem ge unfolding m by blast
    next
      assume a: "m \<in> starts rs \<and> m < x \<and> (\<forall>s \<in> starts rs. s < x \<longrightarrow> s \<le> m)"
      have "m \<le> Max (set ?ys)" using ge a by blast
      moreover have "Max (set ?ys) \<le> m" using a mem by blast
      ultimately show "prev_start rs x = Some m" using n by simp
    qed
  qed
qed

lemma next_start_cong:
  assumes "starts rs = starts rs'"
  shows "next_start rs x = next_start rs' x"
proof (cases "next_start rs' x")
  case None
  then have "next_start rs x = None" using assms by (simp add: next_start_None_iff)
  then show ?thesis using None by simp
next
  case (Some m)
  then have "next_start rs x = Some m" using assms by (simp add: next_start_Some_iff)
  then show ?thesis using Some by simp
qed

lemma prev_start_cong:
  assumes "starts rs = starts rs'"
  shows "prev_start rs x = prev_start rs' x"
proof (cases "prev_start rs' x")
  case None
  then have "prev_start rs x = None" using assms by (simp add: prev_start_None_iff)
  then show ?thesis using None by simp
next
  case (Some m)
  then have "prev_start rs x = Some m" using assms by (simp add: prev_start_Some_iff)
  then show ?thesis using Some by simp
qed

lemma starts_map: "starts rs = set (map r_start rs)"
  by (simp add: starts_def)

lemma set_duration_map_start [simp]: "map r_start (set_duration k f rs) = map r_start rs"
  by (simp add: set_duration_def)

lemma set_duration_map_uuid [simp]: "map r_uuid (set_duration k f rs) = map r_uuid rs"
  by (simp add: set_duration_def)

lemma set_duration_starts [simp]: "starts (set_duration k f rs) = starts rs"
  by (simp only: starts_map set_duration_map_start)

lemma set_duration_next [simp]: "next_start (set_duration k f rs) x = next_start rs x"
  by (rule next_start_cong) simp

lemma set_duration_prev [simp]: "prev_start (set_duration k f rs) x = prev_start rs x"
  by (rule prev_start_cong) simp

lemma next_of_prev:
  assumes "x \<in> starts rs" and "prev_start rs x = Some p"
  shows "next_start rs p = Some x"
proof -
  have p: "p \<in> starts rs" "p < x" "\<And>s. s \<in> starts rs \<Longrightarrow> s < x \<Longrightarrow> s \<le> p"
    using assms(2) by (simp_all add: prev_start_Some_iff)
  have "\<forall>s \<in> starts rs. p < s \<longrightarrow> x \<le> s"
  proof (intro ballI impI)
    fix s assume "s \<in> starts rs" "p < s"
    then show "x \<le> s" using p(3) [of s] by linarith
  qed
  then show ?thesis using assms(1) p(2) by (simp add: next_start_Some_iff)
qed

lemma next_start_insert_other:
  assumes S: "starts rs' = insert x (starts rs)"
    and y: "y \<in> starts rs" "y \<noteq> x" and np: "prev_start rs' x \<noteq> Some y"
  shows "next_start rs' y = next_start rs y"
proof (cases "x < y")
  case True
  show ?thesis
  proof (cases "next_start rs y")
    case None
    then have "next_start rs' y = None"
      using S True by (simp add: next_start_None_iff)
    then show ?thesis using None by simp
  next
    case (Some m)
    then have "next_start rs' y = Some m"
      using S True by (simp add: next_start_Some_iff)
    then show ?thesis using Some by simp
  qed
next
  case False
  then have lt: "y < x" using y(2) by simp
  have "y \<in> starts rs'" using S y(1) by simp
  then have "\<exists>s \<in> starts rs'. s < x \<and> \<not> s \<le> y"
    using np lt by (auto simp: prev_start_Some_iff)
  then obtain s where s: "s \<in> starts rs" "s < x" "y < s" using S by auto
  then obtain m where m: "next_start rs y = Some m"
    by (cases "next_start rs y") (auto simp: next_start_None_iff)
  then have mp: "m \<in> starts rs" "y < m" "\<And>t. t \<in> starts rs \<Longrightarrow> y < t \<Longrightarrow> m \<le> t"
    by (simp_all add: next_start_Some_iff)
  have "m < x" using mp(3) [OF s(1) s(3)] s(2) by simp
  then have "next_start rs' y = Some m"
    using S mp by (simp add: next_start_Some_iff)
  then show ?thesis using m by simp
qed

lemma next_start_delete_prev:
  assumes "x \<notin> starts rs" and "prev_start rs x = Some p"
  shows "next_start rs p = next_start rs x"
proof -
  have p: "p \<in> starts rs" "p < x" "\<And>s. s \<in> starts rs \<Longrightarrow> s < x \<Longrightarrow> s \<le> p"
    using assms(2) by (simp_all add: prev_start_Some_iff)
  have eq: "\<And>s. s \<in> starts rs \<Longrightarrow> (p < s \<longleftrightarrow> x < s)"
  proof -
    fix s assume s: "s \<in> starts rs"
    then have "s \<noteq> x" using assms(1) by auto
    then show "p < s \<longleftrightarrow> x < s" using p(2) p(3) [OF s] by linarith
  qed
  show ?thesis
  proof (cases "next_start rs x")
    case None
    then have "next_start rs p = None"
      using eq by (auto simp: next_start_None_iff not_less [symmetric])
    then show ?thesis using None by simp
  next
    case (Some m)
    then have "next_start rs p = Some m"
      using eq by (auto simp: next_start_Some_iff)
    then show ?thesis using Some by simp
  qed
qed

lemma next_start_delete_other:
  assumes S: "starts rs' = starts rs - {x}"
    and y: "y \<in> starts rs'" and np: "prev_start rs' x \<noteq> Some y"
  shows "next_start rs' y = next_start rs y"
proof (cases "x < y")
  case True
  show ?thesis
  proof (cases "next_start rs y")
    case None
    then have "next_start rs' y = None"
      using S True by (auto simp: next_start_None_iff)
    then show ?thesis using None by simp
  next
    case (Some m)
    then have "next_start rs' y = Some m"
      using S True by (auto simp: next_start_Some_iff)
    then show ?thesis using Some by simp
  qed
next
  case False
  have "y \<noteq> x" using S y by auto
  then have lt: "y < x" using False by simp
  have "\<exists>s \<in> starts rs'. s < x \<and> \<not> s \<le> y"
    using np lt y by (auto simp: prev_start_Some_iff)
  then obtain s where s: "s \<in> starts rs'" "s < x" "y < s" by auto
  then have s': "s \<in> starts rs" using S by auto
  obtain m where m: "next_start rs y = Some m"
    using s' s(3) by (cases "next_start rs y") (auto simp: next_start_None_iff)
  then have mp: "m \<in> starts rs" "y < m" "\<And>t. t \<in> starts rs \<Longrightarrow> y < t \<Longrightarrow> m \<le> t"
    by (simp_all add: next_start_Some_iff)
  have "m < x" using mp(3) [OF s' s(3)] s(2) by simp
  then have "next_start rs' y = Some m"
    using S mp by (auto simp: next_start_Some_iff)
  then show ?thesis using m by simp
qed

section \<open>The triggers keep the durations derived\<close>

lemma derivedI:
  assumes "\<And>r. r \<in> set rs \<Longrightarrow>
             r_duration r = Some (ifnull_minus (next_start rs (r_start r)) (r_start r))"
  shows "derived rs"
  using assms by (simp add: derived_def)

lemma derivedD:
  "derived rs \<Longrightarrow> r \<in> set rs \<Longrightarrow>
     r_duration r = Some (ifnull_minus (next_start rs (r_start r)) (r_start r))"
  by (simp add: derived_def)

lemma set_duration_derivedI:
  assumes "\<And>r. r \<in> set rs \<Longrightarrow>
     (if Some (r_start r) = k then Some (f r) else r_duration r)
       = Some (ifnull_minus (next_start rs (r_start r)) (r_start r))"
  shows "derived (set_duration k f rs)"
proof (rule derivedI)
  fix r' assume "r' \<in> set (set_duration k f rs)"
  then obtain r where r: "r \<in> set rs"
    and r': "r' = (if Some (r_start r) = k then r\<lparr>r_duration := Some (f r)\<rparr> else r)"
    by (auto simp only: set_duration_def set_map image_iff)
  have a: "r_start r' = r_start r" by (simp add: r')
  have b: "r_duration r' = (if Some (r_start r) = k then Some (f r) else r_duration r)"
    by (simp add: r')
  show "r_duration r'
      = Some (ifnull_minus (next_start (set_duration k f rs) (r_start r')) (r_start r'))"
    unfolding a b set_duration_next using assms [OF r] .
qed

lemma set_duration_duration:
  "r \<in> set (set_duration k f rs) \<Longrightarrow>
     \<exists>r0 \<in> set rs. r_start r = r_start r0
        \<and> r_duration r = (if Some (r_start r0) = k then Some (f r0) else r_duration r0)"
proof -
  assume "r \<in> set (set_duration k f rs)"
  then obtain r0 where r0: "r0 \<in> set rs"
    and r: "r = (if Some (r_start r0) = k then r0\<lparr>r_duration := Some (f r0)\<rparr> else r0)"
    by (auto simp only: set_duration_def set_map image_iff)
  have "r_start r = r_start r0" by (simp add: r)
  moreover have "r_duration r = (if Some (r_start r0) = k then Some (f r0) else r_duration r0)"
    by (simp add: r)
  ultimately show ?thesis using r0 by blast
qed

lemma starts_append [simp]: "starts (rs @ [new]) = insert (r_start new) (starts rs)"
  by (simp add: starts_def)

lemma insert_timelog_derived:
  assumes d: "derived rs" and fresh: "r_start new \<notin> starts rs"
  shows "derived (timelog (insert_timelog new \<lparr>timelog = rs @ [new], removed = rm\<rparr>))"
proof -
  let ?x = "r_start new"
  let ?rs' = "rs @ [new]"
  let ?k = "prev_start ?rs' ?x"
  let ?f1 = "\<lambda>r. ?x - r_start r"
  let ?t1 = "set_duration ?k ?f1 ?rs'"
  let ?f2 = "\<lambda>r::row. ifnull_minus (next_start ?t1 ?x) ?x"
  have tl: "timelog (insert_timelog new \<lparr>timelog = ?rs', removed = rm\<rparr>)
              = set_duration (Some ?x) ?f2 ?t1"
    by (simp add: insert_timelog_def Let_def)
  have S: "starts ?rs' = insert ?x (starts rs)" by simp
  have xin: "?x \<in> starts ?rs'" by simp
  have "derived (set_duration (Some ?x) ?f2 ?t1)"
  proof (rule set_duration_derivedI)
    fix r1 assume "r1 \<in> set ?t1"
    then obtain r0 where r0: "r0 \<in> set ?rs'" and st: "r_start r1 = r_start r0"
      and du: "r_duration r1 = (if Some (r_start r0) = ?k then Some (?f1 r0) else r_duration r0)"
      using set_duration_duration [of r1 ?k ?f1 ?rs'] by blast
    show "(if Some (r_start r1) = Some ?x then Some (?f2 r1) else r_duration r1)
            = Some (ifnull_minus (next_start ?t1 (r_start r1)) (r_start r1))"
    proof (cases "r_start r0 = ?x")
      case True
      then show ?thesis using st by simp
    next
      case ne: False
      then have r0rs: "r0 \<in> set rs" using r0 by auto
      then have y: "r_start r0 \<in> starts rs" by (simp add: starts_def)
      show ?thesis
      proof (cases "Some (r_start r0) = ?k")
        case True
        then have k: "?k = Some (r_start r0)" by simp
        then have "next_start ?rs' (r_start r0) = Some ?x"
          using next_of_prev [OF xin] by simp
        then show ?thesis using du k ne st by (simp add: ifnull_minus_def)
      next
        case False
        then have "next_start ?rs' (r_start r0) = next_start rs (r_start r0)"
          using next_start_insert_other [OF S y ne] by simp
        moreover have "r_duration r0
            = Some (ifnull_minus (next_start rs (r_start r0)) (r_start r0))"
          using derivedD [OF d r0rs] .
        ultimately show ?thesis using du False ne st by simp
      qed
    qed
  qed
  then show ?thesis using tl by simp
qed

lemma starts_without:
  assumes ds: "distinct (map r_start rs)" and du: "distinct (map r_uuid rs)"
    and old: "old \<in> set rs"
  shows "starts (filter (\<lambda>r. r_uuid r \<noteq> r_uuid old) rs) = starts rs - {r_start old}"
proof -
  have ist: "inj_on r_start (set rs)" and iu: "inj_on r_uuid (set rs)"
    using ds du by (simp_all add: distinct_map)
  have "\<And>r. r \<in> set rs \<Longrightarrow> (r_uuid r \<noteq> r_uuid old \<longleftrightarrow> r_start r \<noteq> r_start old)"
    using ist iu old by (metis inj_onD)
  then show ?thesis using old by (auto simp: starts_def)
qed

lemma delete_timelog_derived:
  assumes d: "derived rs" and ds: "distinct (map r_start rs)" and du: "distinct (map r_uuid rs)"
    and old: "old \<in> set rs"
  shows "derived (delete_timelog old (filter (\<lambda>r. r_uuid r \<noteq> r_uuid old) rs))"
proof -
  let ?x = "r_start old"
  let ?rs' = "filter (\<lambda>r. r_uuid r \<noteq> r_uuid old) rs"
  have S: "starts ?rs' = starts rs - {?x}" using starts_without [OF ds du old] .
  then have xout: "?x \<notin> starts ?rs'" by simp
  show ?thesis
    unfolding delete_timelog_def
  proof (rule set_duration_derivedI)
    fix r assume r: "r \<in> set ?rs'"
    then have rrs: "r \<in> set rs" by simp
    have y: "r_start r \<in> starts ?rs'" using r by (simp only: starts_def image_eqI)
    show "(if Some (r_start r) = prev_start ?rs' ?x
           then Some (ifnull_minus (next_start ?rs' ?x) (r_start r)) else r_duration r)
          = Some (ifnull_minus (next_start ?rs' (r_start r)) (r_start r))"
    proof (cases "Some (r_start r) = prev_start ?rs' ?x")
      case True
      then have k: "prev_start ?rs' ?x = Some (r_start r)" by simp
      have "next_start ?rs' (r_start r) = next_start ?rs' ?x"
        using next_start_delete_prev [OF xout k] .
      then show ?thesis using k by simp
    next
      case False
      then have k: "prev_start ?rs' ?x \<noteq> Some (r_start r)" by auto
      have "next_start ?rs' (r_start r) = next_start rs (r_start r)"
        using next_start_delete_other [OF S y k] .
      then show ?thesis using False derivedD [OF d rrs] by simp
    qed
  qed
qed

lemma find_uuid_Some:
  "find (\<lambda>r. r_uuid r = u) rs = Some old \<Longrightarrow> old \<in> set rs \<and> r_uuid old = u"
  by (auto simp: find_Some_iff in_set_conv_nth)

lemma find_uuid_None:
  "find (\<lambda>r. r_uuid r = u) rs = None \<longleftrightarrow> u \<notin> set (map r_uuid rs)"
  by (auto simp: find_None_iff)

lemma sql_delete_timelog_derived:
  assumes "derived rs" and "distinct (map r_start rs)" and "distinct (map r_uuid rs)"
  shows "derived (sql_delete_timelog u rs)"
proof (cases "find (\<lambda>r. r_uuid r = u) rs")
  case None
  then show ?thesis using assms(1) by (simp add: sql_delete_timelog_def)
next
  case (Some old)
  then have o: "old \<in> set rs" "r_uuid old = u" using find_uuid_Some by blast+
  show ?thesis
    using delete_timelog_derived [OF assms o(1)] Some o(2)
    by (simp add: sql_delete_timelog_def)
qed

lemma delete_timelog_maps [simp]:
  "map r_start (delete_timelog old rs) = map r_start rs"
  "map r_uuid (delete_timelog old rs) = map r_uuid rs"
  by (simp_all add: delete_timelog_def)

lemma sql_delete_timelog_uuids:
  "map r_uuid (sql_delete_timelog u rs) = filter (\<lambda>v. v \<noteq> u) (map r_uuid rs)"
proof (cases "find (\<lambda>r. r_uuid r = u) rs")
  case None
  then have "u \<notin> set (map r_uuid rs)" by (simp add: find_uuid_None)
  then have "filter (\<lambda>v. v \<noteq> u) (map r_uuid rs) = map r_uuid rs"
    by (simp only: filter_id_conv) auto
  then show ?thesis using None by (simp add: sql_delete_timelog_def)
next
  case (Some old)
  then show ?thesis by (simp add: sql_delete_timelog_def filter_map comp_def)
qed

lemma sql_delete_timelog_distinct:
  assumes "distinct (map r_start rs)" and "distinct (map r_uuid rs)"
  shows "distinct (map r_start (sql_delete_timelog u rs))
       \<and> distinct (map r_uuid (sql_delete_timelog u rs))"
proof (cases "find (\<lambda>r. r_uuid r = u) rs")
  case None
  then show ?thesis using assms by (simp add: sql_delete_timelog_def)
next
  case (Some old)
  then show ?thesis using assms
    by (simp add: sql_delete_timelog_def distinct_map_filter)
qed

lemma sql_delete_timelog_subset:
  "set (map r_uuid (sql_delete_timelog u rs)) = set (map r_uuid rs) - {u}"
  unfolding sql_delete_timelog_uuids by auto

lemma prev_start_insert_cases:
  assumes S: "starts rs' = insert n (starts mid)" and p: "prev_start mid x = Some y"
  shows "prev_start rs' x = Some y \<or> prev_start rs' n = Some y"
proof -
  have y: "y \<in> starts mid" "y < x" "\<And>s. s \<in> starts mid \<Longrightarrow> s < x \<Longrightarrow> s \<le> y"
    using p by (simp_all add: prev_start_Some_iff)
  show ?thesis
  proof (cases "y < n \<and> n < x")
    case True
    have "\<forall>s \<in> starts rs'. s < n \<longrightarrow> s \<le> y"
    proof (intro ballI impI)
      fix s assume "s \<in> starts rs'" "s < n"
      then have "s \<in> starts mid" "s < x" using S True by auto
      then show "s \<le> y" using y(3) by blast
    qed
    then have "prev_start rs' n = Some y"
      using S y(1) True by (simp add: prev_start_Some_iff)
    then show ?thesis by simp
  next
    case False
    have "\<forall>s \<in> starts rs'. s < x \<longrightarrow> s \<le> y"
    proof (intro ballI impI)
      fix s assume s: "s \<in> starts rs'" "s < x"
      show "s \<le> y"
      proof (cases "s = n")
        case True
        then show ?thesis using False s(2) by auto
      next
        case False
        then have "s \<in> starts mid" using S s(1) by auto
        then show ?thesis using y(3) s(2) by blast
      qed
    qed
    then have "prev_start rs' x = Some y"
      using S y(1,2) by (simp add: prev_start_Some_iff)
    then show ?thesis by simp
  qed
qed

lemma set_replace_row:
  assumes du: "distinct (map r_uuid rs)" and old: "old \<in> set rs"
    and u: "r_uuid new = r_uuid old"
  shows "set (map (\<lambda>r. if r_uuid r = r_uuid old then new else r) rs)
           = insert new (set (filter (\<lambda>r. r_uuid r \<noteq> r_uuid old) rs))"
  using old by (auto simp: image_iff)

lemma update_timelog_derived:
  assumes d: "derived rs" and ds: "distinct (map r_start rs)" and du: "distinct (map r_uuid rs)"
    and old: "old \<in> set rs" and u: "r_uuid new = r_uuid old"
    and fresh: "r_start new \<notin> starts (filter (\<lambda>r. r_uuid r \<noteq> r_uuid old) rs)"
  shows "derived (update_timelog old new
                    (map (\<lambda>r. if r_uuid r = r_uuid old then new else r) rs))"
proof -
  let ?n = "r_start new" and ?x = "r_start old"
  let ?mid = "filter (\<lambda>r. r_uuid r \<noteq> r_uuid old) rs"
  let ?tl1 = "map (\<lambda>r. if r_uuid r = r_uuid old then new else r) rs"
  let ?k1 = "prev_start ?tl1 ?n"
  let ?f1 = "\<lambda>r. ?n - r_start r"
  let ?t1 = "set_duration ?k1 ?f1 ?tl1"
  let ?k2 = "nullif (prev_start ?t1 ?x) (prev_start ?t1 ?n)"
  let ?f2 = "\<lambda>r. ifnull_minus (next_start ?t1 ?x) (r_start r)"
  let ?t2 = "set_duration ?k2 ?f2 ?t1"
  let ?f3 = "\<lambda>r::row. ifnull_minus (next_start ?t2 ?n) ?n"
  have ut: "update_timelog old new ?tl1 = set_duration (Some ?n) ?f3 ?t2"
    by (simp add: update_timelog_def Let_def)
  have M: "starts ?mid = starts rs - {?x}" using starts_without [OF ds du old] .
  have set1: "set ?tl1 = insert new (set ?mid)" using set_replace_row [OF du old u] .
  have S: "starts ?tl1 = insert ?n (starts ?mid)"
    unfolding starts_def set1 by simp
  have nin: "?n \<in> starts ?tl1" using S by simp
  have k2: "?k2 = nullif (prev_start ?tl1 ?x) ?k1" by simp
  have "derived (set_duration (Some ?n) ?f3 ?t2)"
  proof (rule set_duration_derivedI)
    fix r2 assume "r2 \<in> set ?t2"
    then obtain r1 where r1: "r1 \<in> set ?t1" and st2: "r_start r2 = r_start r1"
      and du2: "r_duration r2 = (if Some (r_start r1) = ?k2 then Some (?f2 r1) else r_duration r1)"
      using set_duration_duration [of r2 ?k2 ?f2 ?t1] by blast
    from r1 obtain r0 where r0: "r0 \<in> set ?tl1" and st1: "r_start r1 = r_start r0"
      and du1: "r_duration r1 = (if Some (r_start r0) = ?k1 then Some (?f1 r0) else r_duration r0)"
      using set_duration_duration [of r1 ?k1 ?f1 ?tl1] by blast
    let ?y = "r_start r0"
    have st: "r_start r2 = ?y" using st1 st2 by simp
    have nx2: "\<And>z. next_start ?t2 z = next_start ?tl1 z" by simp
    have nx1: "\<And>z. next_start ?t1 z = next_start ?tl1 z" by simp
    show "(if Some (r_start r2) = Some ?n then Some (?f3 r2) else r_duration r2)
            = Some (ifnull_minus (next_start ?t2 (r_start r2)) (r_start r2))"
    proof (cases "?y = ?n")
      case True
      then show ?thesis using st by simp
    next
      case ne: False
      then have "r0 \<noteq> new" by auto
      moreover have "r0 \<in> insert new (set ?mid)" using r0 unfolding set1 .
      ultimately have r0mid: "r0 \<in> set ?mid" by blast
      then have r0rs: "r0 \<in> set rs" by simp
      have y: "?y \<in> starts ?mid" using r0mid by (simp only: starts_def image_eqI)
      have goal: "r_duration r2 = Some (ifnull_minus (next_start ?tl1 ?y) ?y)"
      proof (cases "Some ?y = ?k2")
        case True
        then have a: "prev_start ?tl1 ?x = Some ?y" and b: "prev_start ?tl1 ?x \<noteq> ?k1"
          unfolding k2 nullif_def by (auto split: if_splits)
        have "?x \<noteq> ?n" using b by auto
        moreover have "?x \<notin> starts ?mid" using M by simp
        ultimately have xout: "?x \<notin> starts ?tl1" using S by simp
        have "next_start ?tl1 ?y = next_start ?tl1 ?x"
          using next_start_delete_prev [OF xout a] .
        then show ?thesis using du2 True st1 nx1 by simp
      next
        case nk2: False
        then have du2': "r_duration r2 = r_duration r1" using du2 st1 by simp
        show ?thesis
        proof (cases "Some ?y = ?k1")
          case True
          then have k: "?k1 = Some ?y" by simp
          have "next_start ?tl1 ?y = Some ?n" using next_of_prev [OF nin k] .
          then show ?thesis using du2' du1 k by (simp add: ifnull_minus_def)
        next
          case nk1: False
          then have k1: "prev_start ?tl1 ?n \<noteq> Some ?y" by auto
          have kx: "prev_start ?tl1 ?x \<noteq> Some ?y"
            using nk2 nk1 unfolding k2 nullif_def by (auto split: if_splits)
          have pm: "prev_start ?mid ?x \<noteq> Some ?y"
            using prev_start_insert_cases [OF S, of ?x ?y] k1 kx by blast
          have "next_start ?tl1 ?y = next_start ?mid ?y"
            using next_start_insert_other [OF S y ne k1] .
          also have "\<dots> = next_start rs ?y"
            using next_start_delete_other [OF M y pm] .
          finally have "next_start ?tl1 ?y = next_start rs ?y" .
          then show ?thesis using du2' du1 nk1 derivedD [OF d r0rs] by simp
        qed
      qed
      show ?thesis using goal ne st nx2 by simp
    qed
  qed
  then show ?thesis using ut by simp
qed

section \<open>The statements keep the tables well formed\<close>

lemma derived_map_same:
  assumes d: "derived rs"
    and g: "\<And>r. r \<in> set rs \<Longrightarrow> r_start (g r) = r_start r \<and> r_duration (g r) = r_duration r"
  shows "derived (map g rs)"
proof -
  have "map r_start (map g rs) = map r_start rs" using g by simp
  then have "starts (map g rs) = starts rs" by (simp only: starts_map)
  then have nx: "\<And>x. next_start (map g rs) x = next_start rs x" by (rule next_start_cong)
  show ?thesis
  proof (rule derivedI)
    fix r' assume "r' \<in> set (map g rs)"
    then obtain r where r: "r \<in> set rs" and r': "r' = g r" by auto
    show "r_duration r' = Some (ifnull_minus (next_start (map g rs) (r_start r')) (r_start r'))"
      unfolding r' nx using g [OF r] derivedD [OF d r] by simp
  qed
qed

lemma insert_timelog_maps [simp]:
  "map r_start (timelog (insert_timelog new d)) = map r_start (timelog d)"
  "map r_uuid (timelog (insert_timelog new d)) = map r_uuid (timelog d)"
  "removed (insert_timelog new d) = (removed d)(r_uuid new := None)"
  by (simp_all add: insert_timelog_def Let_def)

lemma update_timelog_maps [simp]:
  "map r_start (update_timelog old new rs) = map r_start rs"
  "map r_uuid (update_timelog old new rs) = map r_uuid rs"
  by (simp_all add: update_timelog_def Let_def)

lemma wf_db_sql_insert_timelog:
  assumes wf: "wf_db d" and r: "sql_insert_timelog u st cat com mt d = Some (n, d')"
  shows "wf_db d'"
proof (cases "check_insert_timelog d u mt")
  case True
  then have "d' = d" using r by (simp add: sql_insert_timelog_def)
  then show ?thesis using wf by simp
next
  case False
  let ?new = "\<lparr>r_uuid = u, r_start = st, r_category = cat, r_comment = com,
               r_duration = None, r_mtime = mt\<rparr>"
  let ?d1 = "d\<lparr>timelog := timelog d @ [?new]\<rparr>"
  have fresh: "st \<notin> set (map r_start (timelog d))" "u \<notin> set (map r_uuid (timelog d))"
    using r False by (auto simp: sql_insert_timelog_def split: if_splits)
  have d': "d' = insert_timelog ?new ?d1"
    using r False fresh by (simp add: sql_insert_timelog_def Let_def)
  have d1: "?d1 = \<lparr>timelog = timelog d @ [?new], removed = removed d\<rparr>" by simp
  have "r_start ?new \<notin> starts (timelog d)" using fresh(1) by (simp add: starts_map)
  moreover have "derived (timelog d)" using wf by (simp add: wf_db_def)
  ultimately have der: "derived (timelog d')"
    unfolding d' d1 by (rule insert_timelog_derived [rotated])
  have ds: "distinct (map r_start (timelog d'))"
    using wf fresh(1) unfolding d' by (simp add: wf_db_def)
  have du: "distinct (map r_uuid (timelog d'))"
    using wf fresh(2) unfolding d' by (simp add: wf_db_def)
  have us: "set (map r_uuid (timelog d')) = insert u (set (map r_uuid (timelog d)))"
    unfolding d' by simp
  have rm: "removed d' = (removed d)(u := None)" unfolding d' by simp
  have old: "\<And>v. v \<in> set (map r_uuid (timelog d)) \<Longrightarrow> removed d v = None"
    using wf by (auto simp: wf_db_def)
  have dj: "\<forall>r \<in> set (timelog d'). removed d' (r_uuid r) = None"
  proof
    fix r assume "r \<in> set (timelog d')"
    then have "r_uuid r \<in> set (map r_uuid (timelog d'))" by simp
    then have "r_uuid r = u \<or> r_uuid r \<in> set (map r_uuid (timelog d))"
      unfolding us by blast
    then show "removed d' (r_uuid r) = None" unfolding rm using old by auto
  qed
  show ?thesis using der ds du dj by (simp add: wf_db_def)
qed

lemma wf_db_sql_insert_removed:
  assumes wf: "wf_db d"
  shows "wf_db (snd (sql_insert_removed u mt d))"
proof (cases "check_insert_removed d u mt")
  case True
  then show ?thesis using wf by (simp add: sql_insert_removed_def)
next
  case False
  let ?rs = "sql_delete_timelog u (timelog d)"
  have e: "snd (sql_insert_removed u mt d) = \<lparr>timelog = ?rs, removed = (removed d)(u \<mapsto> mt)\<rparr>"
    using False by (simp add: sql_insert_removed_def)
  have w: "derived (timelog d)" "distinct (map r_start (timelog d))"
    "distinct (map r_uuid (timelog d))" "\<forall>r \<in> set (timelog d). removed d (r_uuid r) = None"
    using wf by (simp_all add: wf_db_def)
  have der: "derived ?rs" using sql_delete_timelog_derived [OF w(1,2,3)] .
  have dis: "distinct (map r_start ?rs) \<and> distinct (map r_uuid ?rs)"
    using sql_delete_timelog_distinct [OF w(2,3)] .
  have sub: "set (map r_uuid ?rs) = set (map r_uuid (timelog d)) - {u}"
    by (rule sql_delete_timelog_subset)
  have dj: "\<forall>r \<in> set ?rs. ((removed d)(u \<mapsto> mt)) (r_uuid r) = None"
  proof
    fix r assume "r \<in> set ?rs"
    then have "r_uuid r \<in> set (map r_uuid ?rs)" by simp
    then have "r_uuid r \<in> set (map r_uuid (timelog d))" "r_uuid r \<noteq> u"
      unfolding sub by auto
    then show "((removed d)(u \<mapsto> mt)) (r_uuid r) = None" using w(4) by auto
  qed
  show ?thesis unfolding e using der dis dj by (simp add: wf_db_def)
qed

lemma distinct_replace_start:
  assumes ds: "distinct (map r_start rs)" and du: "distinct (map r_uuid rs)"
    and fresh: "r_start new \<notin> starts (filter (\<lambda>r. r_uuid r \<noteq> u) rs)"
  shows "distinct (map r_start (map (\<lambda>r. if r_uuid r = u then new else r) rs))"
proof -
  let ?h = "\<lambda>r. r_start (if r_uuid r = u then new else r)"
  have drs: "distinct rs" using ds by (simp add: distinct_map)
  have ist: "inj_on r_start (set rs)" and iu: "inj_on r_uuid (set rs)"
    using ds du by (simp_all add: distinct_map)
  have "inj_on ?h (set rs)"
  proof (rule inj_onI)
    fix a b assume a: "a \<in> set rs" and b: "b \<in> set rs" and e: "?h a = ?h b"
    show "a = b"
    proof (cases "r_uuid a = u")
      case ua: True
      show ?thesis
      proof (cases "r_uuid b = u")
        case True
        then show ?thesis using ua iu a b by (simp add: inj_on_def)
      next
        case False
        then have "r_start b \<in> starts (filter (\<lambda>r. r_uuid r \<noteq> u) rs)"
          using b by (simp add: starts_def)
        moreover have "r_start b = r_start new" using e ua False by simp
        ultimately show ?thesis using fresh by simp
      qed
    next
      case na: False
      show ?thesis
      proof (cases "r_uuid b = u")
        case True
        have "r_start a \<in> starts (filter (\<lambda>r. r_uuid r \<noteq> u) rs)"
          using a na by (simp add: starts_def)
        moreover have "r_start a = r_start new" using e na True by simp
        ultimately show ?thesis using fresh by simp
      next
        case False
        then have "r_start a = r_start b" using e na by simp
        then show ?thesis using ist a b by (simp add: inj_on_def)
      qed
    qed
  qed
  then have "distinct (map ?h rs)" using drs by (simp add: distinct_map)
  then show ?thesis by (simp add: comp_def)
qed

lemma wf_db_sql_update_timelog:
  assumes wf: "wf_db d" and r: "sql_update_timelog f u st cat com mt d = Some d'"
  shows "wf_db d'"
proof (cases "find (\<lambda>r. r_uuid r = u) (timelog d)")
  case None
  then have "d' = d" using r by (simp add: sql_update_timelog_def split: if_splits)
  then show ?thesis using wf by simp
next
  case (Some old)
  then have o: "old \<in> set (timelog d)" "r_uuid old = u" using find_uuid_Some by blast+
  let ?rs = "timelog d"
  have w: "derived ?rs" "distinct (map r_start ?rs)" "distinct (map r_uuid ?rs)"
    "\<forall>r \<in> set ?rs. removed d (r_uuid r) = None"
    using wf by (simp_all add: wf_db_def)
  show ?thesis
  proof (cases "mt < r_mtime old")
    case True
    then have "d' = d" using r Some by (simp add: sql_update_timelog_def split: if_splits)
    then show ?thesis using wf by simp
  next
    case False
    let ?new = "old\<lparr>r_start := (if StartTime \<in> f then st else r_start old),
                     r_category := (if Category \<in> f then cat else r_category old),
                     r_comment := (if Comment \<in> f then com else r_comment old),
                     r_mtime := mt\<rparr>"
    let ?g = "\<lambda>r. if r_uuid r = u then ?new else r"
    let ?tl1 = "map ?g ?rs"
    have fresh: "r_start ?new \<notin> set (map r_start (filter (\<lambda>r. r_uuid r \<noteq> u) ?rs))"
      using r Some False by (auto simp: sql_update_timelog_def Let_def split: if_splits)
    then have fresh': "r_start ?new \<notin> starts (filter (\<lambda>r. r_uuid r \<noteq> u) ?rs)"
      by (simp add: starts_map)
    have d': "d' = d\<lparr>timelog := (if StartTime \<in> f then update_timelog old ?new ?tl1 else ?tl1)\<rparr>"
      using r Some False fresh by (simp add: sql_update_timelog_def Let_def split: if_splits)
    have un: "r_uuid ?new = r_uuid old" by simp
    have uu: "map r_uuid ?tl1 = map r_uuid ?rs" using o(2) by (simp add: comp_def)
    have ds1: "distinct (map r_start ?tl1)"
      using distinct_replace_start [OF w(2,3) fresh'] .
    have der: "derived (timelog d')"
    proof (cases "StartTime \<in> f")
      case True
      have "derived (update_timelog old ?new (map (\<lambda>r. if r_uuid r = r_uuid old then ?new else r) ?rs))"
        using update_timelog_derived [OF w(1,2,3) o(1) un] fresh' o(2) by simp
      then show ?thesis unfolding d' using True o(2) by simp
    next
      case nst: False
      have "derived ?tl1"
      proof (rule derived_map_same [OF w(1)])
        fix r assume "r \<in> set ?rs"
        then have "r_uuid r = u \<Longrightarrow> r = old"
          using w(3) o by (metis distinct_map inj_onD)
        then show "r_start (?g r) = r_start r \<and> r_duration (?g r) = r_duration r"
          using nst by auto
      qed
      then show ?thesis unfolding d' using nst by simp
    qed
    have "map r_start (timelog d') = map r_start ?tl1" unfolding d' by simp
    then have ds: "distinct (map r_start (timelog d'))" using ds1 by simp
    have uu': "map r_uuid (timelog d') = map r_uuid ?rs" unfolding d' using uu by simp
    then have du: "distinct (map r_uuid (timelog d'))" using w(3) by simp
    have rm: "removed d' = removed d" unfolding d' by simp
    have dj: "\<forall>r \<in> set (timelog d'). removed d' (r_uuid r) = None"
    proof
      fix r assume "r \<in> set (timelog d')"
      then have "r_uuid r \<in> set (map r_uuid (timelog d'))" by simp
      then have "r_uuid r \<in> set (map r_uuid ?rs)" unfolding uu' .
      then show "removed d' (r_uuid r) = None" unfolding rm using w(4) by auto
    qed
    show ?thesis using der ds du dj by (simp add: wf_db_def)
  qed
qed

lemma wf_db_sql_update_category:
  assumes wf: "wf_db d"
  shows "wf_db (d\<lparr>timelog := sql_update_category newName mt oldName (timelog d)\<rparr>)"
proof -
  let ?g = "\<lambda>r. if r_category r = oldName \<and> \<not> mt < r_mtime r
                 then r\<lparr>r_category := newName, r_mtime := mt\<rparr> else r"
  have e: "sql_update_category newName mt oldName (timelog d) = map ?g (timelog d)"
    by (simp add: sql_update_category_def)
  have w: "derived (timelog d)" "distinct (map r_start (timelog d))"
    "distinct (map r_uuid (timelog d))" "\<forall>r \<in> set (timelog d). removed d (r_uuid r) = None"
    using wf by (simp_all add: wf_db_def)
  have ms: "map r_start (map ?g (timelog d)) = map r_start (timelog d)" by simp
  have mu: "map r_uuid (map ?g (timelog d)) = map r_uuid (timelog d)" by simp
  have der: "derived (map ?g (timelog d))"
    by (rule derived_map_same [OF w(1)]) simp
  have dj: "\<forall>r \<in> set (map ?g (timelog d)). removed d (r_uuid r) = None"
    using w(4) by auto
  have ds: "distinct (map r_start (map ?g (timelog d)))" using w(2) ms by metis
  have du: "distinct (map r_uuid (map ?g (timelog d)))" using w(3) mu by metis
  show ?thesis unfolding e using der dj ds du by (simp add: wf_db_def)
qed

section \<open>Every command keeps the tables well formed\<close>

lemma insertData_wf: "wf_db (db s) \<Longrightarrow> wf_db (db (snd (insertData now e s)))"
proof -
  assume wf: "wf_db (db s)"
  let ?q = "sql_insert_timelog (uuid (entry e)) (toTime_t (startTime (entry e)))
             (category (entry e)) (comment (entry e)) (mtime_or_now now e) (db s)"
  show ?thesis
  proof (cases ?q)
    case None
    then show ?thesis using wf by (simp add: insertData_def)
  next
    case (Some p)
    obtain n d where p: "p = (n, d)" by (cases p)
    have "wf_db d" using wf_db_sql_insert_timelog [OF wf] Some p by simp
    then show ?thesis using Some p by (simp add: insertData_def)
  qed
qed

lemma removeData_wf: "wf_db (db s) \<Longrightarrow> wf_db (db (snd (removeData now e s)))"
proof -
  assume wf: "wf_db (db s)"
  obtain n d where q: "sql_insert_removed (uuid (entry e)) (mtime_or_now now e) (db s) = (n, d)"
    by (cases "sql_insert_removed (uuid (entry e)) (mtime_or_now now e) (db s)")
  have "wf_db d"
    using wf_db_sql_insert_removed [OF wf, of "uuid (entry e)" "mtime_or_now now e"] q by simp
  then show ?thesis using q by (simp add: removeData_def)
qed

lemma editData_wf: "wf_db (db s) \<Longrightarrow> wf_db (db (snd (editData now e f s)))"
proof -
  assume wf: "wf_db (db s)"
  let ?q = "sql_update_timelog f (uuid (entry e)) (toTime_t (startTime (entry e)))
             (category (entry e)) (comment (entry e)) (mtime_or_now now e) (db s)"
  show ?thesis
  proof (cases ?q)
    case None
    then show ?thesis using wf by (simp add: editData_def)
  next
    case (Some d)
    have "wf_db d" using wf_db_sql_update_timelog [OF wf Some] .
    then show ?thesis using Some by (simp add: editData_def)
  qed
qed

lemma editCategoryData_wf:
  "wf_db (db s) \<Longrightarrow> wf_db (db (snd (editCategoryData now a b s)))"
  by (simp add: editCategoryData_def wf_db_sql_update_category)

lemma run_all_wf:
  assumes "\<And>x s. wf_db (db s) \<Longrightarrow> wf_db (db (snd (f x s)))"
  shows "wf_db (db s) \<Longrightarrow> wf_db (db (snd (run_all f xs s)))"
proof (induction xs arbitrary: s)
  case Nil
  then show ?case by simp
next
  case (Cons x xs)
  obtain b s1 where fx: "f x s = (b, s1)" by (cases "f x s")
  have w1: "wf_db (db s1)" using assms [OF Cons.prems, of x] fx by simp
  show ?case
  proof (cases b)
    case True
    then show ?thesis using Cons.IH [OF w1] fx by simp
  next
    case False
    then show ?thesis using w1 fx by simp
  qed
qed

lemma insertDataAll_wf: "wf_db (db s) \<Longrightarrow> wf_db (db (snd (insertDataAll now es s)))"
proof -
  assume wf: "wf_db (db s)"
  obtain b s1 where r: "run_all (\<lambda>e. insertData now (toSyncData e)) es s = (b, s1)"
    by (cases "run_all (\<lambda>e. insertData now (toSyncData e)) es s")
  have "wf_db (db (snd (run_all (\<lambda>e. insertData now (toSyncData e)) es s)))"
    using wf by (rule run_all_wf [rotated]) (rule insertData_wf)
  then have "wf_db (db s1)" using r by simp
  then show ?thesis using r wf by (cases b) (simp_all add: insertDataAll_def)
qed

lemma syncData_wf:
  "wf_db (db s) \<Longrightarrow> wf_db (db (snd (syncData now r i un uo s)))"
proof -
  assume wf: "wf_db (db s)"
  obtain b1 s1 where r1: "run_all (removeData now) r s = (b1, s1)"
    by (cases "run_all (removeData now) r s")
  obtain b2 s2 where r2: "run_all (insertData now) i s1 = (b2, s2)"
    by (cases "run_all (insertData now) i s1")
  obtain b3 s3 where r3: "run_all (\<lambda>e. editData now e AllFieldsMask) un s2 = (b3, s3)"
    by (cases "run_all (\<lambda>e. editData now e AllFieldsMask) un s2")
  have "wf_db (db (snd (run_all (removeData now) r s)))"
    using wf by (rule run_all_wf [rotated]) (rule removeData_wf)
  then have w1: "wf_db (db s1)" using r1 by simp
  have "wf_db (db (snd (run_all (insertData now) i s1)))"
    using w1 by (rule run_all_wf [rotated]) (rule insertData_wf)
  then have w2: "wf_db (db s2)" using r2 by simp
  have "wf_db (db (snd (run_all (\<lambda>e. editData now e AllFieldsMask) un s2)))"
    using w2 by (rule run_all_wf [rotated]) (rule editData_wf)
  then have w3: "wf_db (db s3)" using r3 by simp
  show ?thesis
    using r1 r2 r3 wf w3
    by (cases b1; cases b2; cases b3) (simp_all add: syncData_def)
qed

lemma insertEntry_wf: "wf_db (db s) \<Longrightarrow> wf_db (db (insertEntry now e s))"
proof -
  assume wf: "wf_db (db s)"
  obtain b s1 where r: "insertData now (toSyncData e) s = (b, s1)"
    by (cases "insertData now (toSyncData e) s")
  have "wf_db (db s1)" using insertData_wf [OF wf, of now "toSyncData e"] r by simp
  then show ?thesis using r by (cases b) (simp_all add: insertEntry_def)
qed

lemma removeEntry_wf: "wf_db (db s) \<Longrightarrow> wf_db (db (removeEntry now e s))"
proof -
  assume wf: "wf_db (db s)"
  obtain b s1 where r: "removeData now (toSyncData e) s = (b, s1)"
    by (cases "removeData now (toSyncData e) s")
  have "wf_db (db s1)" using removeData_wf [OF wf, of now "toSyncData e"] r by simp
  then show ?thesis using r by (cases b) (simp_all add: removeEntry_def)
qed

lemma editEntry_wf: "wf_db (db s) \<Longrightarrow> wf_db (db (snd (editEntry now e f s)))"
proof -
  assume wf: "wf_db (db s)"
  obtain b s1 where r: "editData now (toSyncData e) f s = (b, s1)"
    by (cases "editData now (toSyncData e) f s")
  have "wf_db (db s1)" using editData_wf [OF wf, of now "toSyncData e" f] r by simp
  then show ?thesis using r wf by (cases b) (simp_all add: editEntry_def Let_def)
qed

lemma editEntries_wf: "wf_db (db s) \<Longrightarrow> wf_db (db (editEntries now es fs s))"
  unfolding editEntries_def
  by (rule run_all_wf) (simp_all add: split_def editEntry_wf)

lemma sync_wf: "wf_db (db s) \<Longrightarrow> wf_db (db (sync now us rs s))"
proof -
  assume wf: "wf_db (db s)"
  obtain rn ro where c1: "classifyRemoved s rs = (rn, ro)" by (cases "classifyRemoved s rs")
  obtain ins insO un uo where c2: "classifyUpdated s us = ((ins, insO), (un, uo))"
    by (cases "classifyUpdated s us") auto
  let ?s1 = "emit (SyncStatsAvailable ro rn insO ins uo un) s"
  obtain b s2 where r: "syncData now (removedMerged ro rn) ins un uo ?s1 = (b, s2)"
    by (cases "syncData now (removedMerged ro rn) ins un uo ?s1")
  have "wf_db (db ?s1)" using wf by simp
  then have "wf_db (db s2)"
    using syncData_wf [of ?s1 now "removedMerged ro rn" ins un uo] r by simp
  then show ?thesis using c1 c2 r by (cases b) (simp_all add: sync_def)
qed

lemma undo_wf: "wf_db (db s) \<Longrightarrow> wf_db (db (undo now s))"
proof (cases "m_undoStack s = []")
  case True
  assume "wf_db (db s)"
  then show ?thesis using True by (simp add: undo_def)
next
  case False
  assume wf: "wf_db (db s)"
  let ?s1 = "s\<lparr>m_undoStack := butlast (m_undoStack s)\<rparr>"
  have w1: "wf_db (db ?s1)" using wf by simp
  show ?thesis
    using False w1 removeEntry_wf [OF w1] insertEntry_wf [OF w1] editEntry_wf [OF w1]
      editEntries_wf [OF w1]
    by (simp add: undo_def Let_def split: UndoType.splits list.splits)
qed

lemma editCategory_wf: "wf_db (db s) \<Longrightarrow> wf_db (db (editCategory now a b s))"
proof -
  assume wf: "wf_db (db s)"
  let ?p = "pushUndo \<lparr>u_type = EditCategory, u_data = getEntries a s,
              u_fields = replicate (length (getEntries a s)) {Category}\<rparr> s"
  obtain r s2 where e: "editCategoryData now a b ?p = (r, s2)"
    by (cases "editCategoryData now a b ?p")
  have "wf_db (db ?p)" using wf by simp
  then have "wf_db (db s2)" using editCategoryData_wf [of ?p now a b] e by simp
  then show ?thesis using e wf by (cases r) (simp_all add: editCategory_def Let_def)
qed

lemma exec_wf: "wf_db (db s) \<Longrightarrow> wf_db (db (exec c s))"
proof (cases c)
  case (Pair now cmd)
  assume wf: "wf_db (db s)"
  have p: "\<And>u. wf_db (db (pushUndo u s))" using wf by simp
  show ?thesis
  proof (cases cmd)
    case (CInsert e)
    then show ?thesis using Pair insertEntry_wf [OF p] by (simp add: insert_cmd_def)
  next
    case (CImport es)
    obtain b s1 where r: "insertDataAll now es s = (b, s1)" by (cases "insertDataAll now es s")
    have "wf_db (db s1)" using insertDataAll_wf [OF wf, of now es] r by simp
    then have "wf_db (db (import_cmd now es s))"
      using r by (cases b) (simp_all add: import_cmd_def)
    then show ?thesis using Pair CImport by simp
  next
    case (CRemove e)
    then show ?thesis using Pair removeEntry_wf [OF p] by (simp add: remove_cmd_def)
  next
    case (CEdit e f)
    then show ?thesis using Pair editEntry_wf [OF p] by (simp add: edit_cmd_def)
  next
    case (CEditCategory a b)
    then show ?thesis using Pair editCategory_wf [OF wf] by simp
  next
    case (CSync us rs)
    then show ?thesis using Pair sync_wf [OF wf] by simp
  next
    case CUndo
    then show ?thesis using Pair undo_wf [OF wf] by simp
  qed
qed

lemma run_wf: "wf_db (db s) \<Longrightarrow> wf_db (db (run cs s))"
  unfolding run_def
  by (induction cs arbitrary: s) (simp_all add: exec_wf)

lemma constructed_wf: "wf_db (db constructed)"
  by (simp add: constructed_def emptyDatabase_def wf_db_def derived_def)

section \<open>The derived-duration invariant\<close>

lemma derived_adjacent:
  assumes d: "derived rs" and a: "a \<in> set rs" and b: "b \<in> set rs"
    and lt: "r_start a < r_start b"
    and adj: "\<forall>c \<in> set rs. \<not> (r_start a < r_start c \<and> r_start c < r_start b)"
  shows "r_duration a = Some (r_start b - r_start a)"
proof -
  have "\<forall>s \<in> starts rs. r_start a < s \<longrightarrow> r_start b \<le> s"
  proof (intro ballI impI)
    fix s assume "s \<in> starts rs" and l: "r_start a < s"
    then obtain c where c: "c \<in> set rs" "s = r_start c" by (auto simp: starts_def)
    then have "\<not> r_start c < r_start b" using adj l by blast
    then show "r_start b \<le> s" using c(2) by simp
  qed
  moreover have "r_start b \<in> starts rs" using b by (simp add: starts_def)
  ultimately have "next_start rs (r_start a) = Some (r_start b)"
    using lt by (simp add: next_start_Some_iff)
  then show ?thesis using derivedD [OF d a] by (simp add: ifnull_minus_def)
qed

lemma derived_open_iff:
  assumes d: "derived rs" and r: "r \<in> set rs"
  shows "r_duration r = Some (- 1) \<longleftrightarrow> (\<forall>q \<in> set rs. r_start q \<le> r_start r)"
proof (cases "next_start rs (r_start r)")
  case None
  then have "\<forall>s \<in> starts rs. s \<le> r_start r" by (simp add: next_start_None_iff)
  then have "\<forall>q \<in> set rs. r_start q \<le> r_start r" by (simp add: starts_def)
  moreover have "r_duration r = Some (- 1)"
    using derivedD [OF d r] None by (simp add: ifnull_minus_def)
  ultimately show ?thesis by simp
next
  case (Some m)
  then have m: "m \<in> starts rs" "r_start r < m" by (simp_all add: next_start_Some_iff)
  then obtain q where "q \<in> set rs" "r_start r < r_start q" by (auto simp: starts_def)
  then have "\<not> (\<forall>q \<in> set rs. r_start q \<le> r_start r)" by force
  moreover have "r_duration r \<noteq> Some (- 1)"
    using derivedD [OF d r] Some m(2) by (simp add: ifnull_minus_def)
  ultimately show ?thesis by simp
qed

lemma derived_open_count:
  assumes d: "derived rs" and ds: "distinct (map r_start rs)"
  shows "length (filter (\<lambda>r. r_duration r = Some (- 1)) rs) = (if rs = [] then 0 else 1)"
proof (cases "rs = []")
  case True
  then show ?thesis by simp
next
  case False
  let ?P = "\<lambda>r. r_duration r = Some (- 1)"
  have drs: "distinct rs" and inj: "inj_on r_start (set rs)"
    using ds by (simp_all add: distinct_map)
  have fin: "finite (starts rs)" by (simp add: starts_def)
  have ne: "starts rs \<noteq> {}" using False by (simp add: starts_def)
  have ge: "\<And>q. q \<in> set rs \<Longrightarrow> r_start q \<le> Max (starts rs)"
  proof -
    fix q assume "q \<in> set rs"
    then have "r_start q \<in> starts rs" by (simp add: starts_def)
    then show "r_start q \<le> Max (starts rs)" by (rule Max_ge [OF fin])
  qed
  have "Max (starts rs) \<in> r_start ` set rs" using Max_in [OF fin ne] by (simp only: starts_def)
  then obtain top where top: "top \<in> set rs" "r_start top = Max (starts rs)"
    by (metis imageE)
  have "\<forall>q \<in> set rs. r_start q \<le> r_start top" using ge top(2) by simp
  then have ptop: "?P top" using derived_open_iff [OF d top(1)] by blast
  have sub: "set (filter ?P rs) \<subseteq> {top}"
  proof
    fix r assume "r \<in> set (filter ?P rs)"
    then have r: "r \<in> set rs" and pr: "?P r" by simp_all
    have "\<forall>q \<in> set rs. r_start q \<le> r_start r" using derived_open_iff [OF d r] pr by blast
    then have "r_start top \<le> r_start r" using top(1) by blast
    moreover have "r_start r \<le> r_start top" using ge [OF r] top(2) by simp
    ultimately have "r_start r = r_start top" by simp
    then have "r = top" using inj r top(1) by (metis inj_onD)
    then show "r \<in> {top}" by simp
  qed
  have "top \<in> set (filter ?P rs)" using ptop top(1) by simp
  then have "set (filter ?P rs) = {top}" using sub by blast
  moreover have "distinct (filter ?P rs)" using drs by (rule distinct_filter)
  ultimately have "length (filter ?P rs) = card {top}"
    using distinct_card [of "filter ?P rs"] by simp
  then show ?thesis using False by simp
qed

text \<open>
  Claim C1. After every sequence of commands run on the worker of an empty database:
  at most one live row has duration \<open>-1\<close>, exactly one if and only if the table is not
  empty, and such a row has the maximum start; and for every pair of live rows A, B with
  A.start < B.start and no row between them, A.duration = B.start - A.start.
\<close>

theorem derived_duration_invariant:
  "length (filter (\<lambda>r. r_duration r = Some (- 1)) (timelog (db (run cs constructed)))) \<le> 1
   \<and> (length (filter (\<lambda>r. r_duration r = Some (- 1)) (timelog (db (run cs constructed)))) = 1
        \<longleftrightarrow> timelog (db (run cs constructed)) \<noteq> [])
   \<and> (\<forall>r \<in> set (timelog (db (run cs constructed))). r_duration r = Some (- 1) \<longrightarrow>
         (\<forall>q \<in> set (timelog (db (run cs constructed))). r_start q \<le> r_start r))
   \<and> (\<forall>a \<in> set (timelog (db (run cs constructed))).
       \<forall>b \<in> set (timelog (db (run cs constructed))).
         r_start a < r_start b
         \<and> (\<forall>c \<in> set (timelog (db (run cs constructed))).
               \<not> (r_start a < r_start c \<and> r_start c < r_start b))
         \<longrightarrow> r_duration a = Some (r_start b - r_start a))"
proof -
  let ?rs = "timelog (db (run cs constructed))"
  have "wf_db (db (run cs constructed))" using run_wf [OF constructed_wf] .
  then have d: "derived ?rs" and ds: "distinct (map r_start ?rs)"
    by (simp_all add: wf_db_def)
  have cnt: "length (filter (\<lambda>r. r_duration r = Some (- 1)) ?rs) = (if ?rs = [] then 0 else 1)"
    using derived_open_count [OF d ds] .
  have a: "length (filter (\<lambda>r. r_duration r = Some (- 1)) ?rs) \<le> 1"
    unfolding cnt by simp
  have b: "length (filter (\<lambda>r. r_duration r = Some (- 1)) ?rs) = 1 \<longleftrightarrow> ?rs \<noteq> []"
    unfolding cnt by simp
  have c: "\<forall>r \<in> set ?rs. r_duration r = Some (- 1) \<longrightarrow> (\<forall>q \<in> set ?rs. r_start q \<le> r_start r)"
    using derived_open_iff [OF d] by blast
  have e: "\<forall>a \<in> set ?rs. \<forall>b \<in> set ?rs.
         r_start a < r_start b
         \<and> (\<forall>c \<in> set ?rs. \<not> (r_start a < r_start c \<and> r_start c < r_start b))
         \<longrightarrow> r_duration a = Some (r_start b - r_start a)"
    using derived_adjacent [OF d] by blast
  show ?thesis using a b c e by blast
qed

theorem derived_duration_invariant_witness:
  "timelog (db threeEntries) \<noteq> []
   \<and> length (filter (\<lambda>r. r_duration r = Some (- 1)) (timelog (db threeEntries))) = 1
   \<and> map r_start (timelog (db threeEntries)) = [100, 200, 300]
   \<and> map r_duration (timelog (db threeEntries)) = [Some 100, Some 100, Some (- 1)]"
proof -
  have ne: "timelog (db threeEntries) \<noteq> []" by code_simp
  have v: "map r_start (timelog (db threeEntries)) = [100, 200, 300]"
    "map r_duration (timelog (db threeEntries)) = [Some 100, Some 100, Some (- 1)]"
    by code_simp+
  have "length (filter (\<lambda>r. r_duration r = Some (- 1)) (timelog (db threeEntries))) = 1"
    using derived_duration_invariant
      [of "[(1, CInsert (sampleEntry 1 100 ''a'')), (2, CInsert (sampleEntry 2 200 ''b'')),
            (3, CInsert (sampleEntry 3 300 ''b''))]"] ne
    unfolding threeEntries_def by blast
  then show ?thesis using ne v by simp
qed

section \<open>A uuid is live or removed, never both\<close>

text \<open>
  Claim C4. After every sequence of commands run on the worker of an empty database, no
  uuid of a live row has a tombstone. An insert that adds a row leaves no tombstone for
  its uuid, and a tombstone that is written leaves no live row for its uuid.
\<close>

theorem live_and_removed_disjoint:
  "(\<forall>r \<in> set (timelog (db (run cs constructed))).
       removed (db (run cs constructed)) (r_uuid r) = None)
   \<and> (sql_insert_timelog u st cat com mt d = Some (Suc 0, d')
        \<longrightarrow> u \<in> set (map r_uuid (timelog d')) \<and> removed d' u = None)
   \<and> (sql_insert_removed v mr e = (Suc 0, e')
        \<longrightarrow> removed e' v = Some mr \<and> v \<notin> set (map r_uuid (timelog e')))"
proof (intro conjI impI)
  have "wf_db (db (run cs constructed))" using run_wf [OF constructed_wf] .
  then show "\<forall>r \<in> set (timelog (db (run cs constructed))).
       removed (db (run cs constructed)) (r_uuid r) = None"
    by (simp add: wf_db_def)
next
  assume r: "sql_insert_timelog u st cat com mt d = Some (Suc 0, d')"
  let ?new = "\<lparr>r_uuid = u, r_start = st, r_category = cat, r_comment = com,
               r_duration = None, r_mtime = mt\<rparr>"
  have d': "d' = insert_timelog ?new (d\<lparr>timelog := timelog d @ [?new]\<rparr>)"
    using r by (simp add: sql_insert_timelog_def Let_def split: if_splits)
  show "u \<in> set (map r_uuid (timelog d'))" unfolding d' by simp
  show "removed d' u = None" unfolding d' by simp
next
  assume r: "sql_insert_removed v mr e = (Suc 0, e')"
  then have e': "e' = \<lparr>timelog = sql_delete_timelog v (timelog e),
                       removed = (removed e)(v \<mapsto> mr)\<rparr>"
    by (simp add: sql_insert_removed_def split: if_splits)
  show "removed e' v = Some mr" unfolding e' by simp
  show "v \<notin> set (map r_uuid (timelog e'))"
    unfolding e' using sql_delete_timelog_subset [of v "timelog e"] by simp
qed

theorem live_and_removed_disjoint_witness:
  "removed (db tombstoned) 1 = Some 50
   \<and> fst (the (sql_insert_timelog 1 100 ''a'' [] 60 (db tombstoned))) = Suc 0
   \<and> removed (snd (the (sql_insert_timelog 1 100 ''a'' [] 60 (db tombstoned)))) 1 = None
   \<and> 1 \<in> set (map r_uuid (timelog (db oneEntry)))
   \<and> fst (sql_insert_removed 1 7 (db oneEntry)) = Suc 0
   \<and> 1 \<notin> set (map r_uuid (timelog (snd (sql_insert_removed 1 7 (db oneEntry)))))
   \<and> 2 \<in> set (map r_uuid (timelog (db threeEntries)))
   \<and> removed (db threeEntries) 2 = None"
proof -
  have v: "removed (db tombstoned) 1 = Some 50" "timelog (db tombstoned) = []"
    "1 \<in> set (map r_uuid (timelog (db oneEntry)))" "removed (db oneEntry) 1 = None"
    by code_simp+
  have "2 \<in> set (map r_uuid (timelog (db threeEntries)))" by code_simp
  then obtain r where r: "r \<in> set (timelog (db threeEntries))" "r_uuid r = 2" by auto
  obtain d' where h1: "sql_insert_timelog 1 100 ''a'' [] 60 (db tombstoned) = Some (Suc 0, d')"
    using v(1,2) by (simp add: sql_insert_timelog_def check_insert_timelog_def Let_def)
  obtain d'' where h2: "sql_insert_removed 1 7 (db oneEntry) = (Suc 0, d'')"
    using v(4) by (simp add: sql_insert_removed_def check_insert_removed_def)
  have "(\<forall>r \<in> set (timelog (db threeEntries)). removed (db threeEntries) (r_uuid r) = None)
      \<and> removed d' 1 = None \<and> 1 \<notin> set (map r_uuid (timelog d''))"
    using live_and_removed_disjoint
      [of "[(1, CInsert (sampleEntry 1 100 ''a'')), (2, CInsert (sampleEntry 2 200 ''b'')),
            (3, CInsert (sampleEntry 3 300 ''b''))]"
          1 100 "''a''" "[]" 60 "db tombstoned" d' 1 7 "db oneEntry" d'']
      h1 h2
    unfolding threeEntries_def by simp
  then show ?thesis using r h1 h2 v by auto
qed

section \<open>Merging the same batch twice\<close>

text \<open>
  \<^verbatim>\<open>sync\<close> skips a peer record when the newer of the live row and the tombstone of its
  uuid has an mtime at least the record's (\<open>skips\<close>, which is \<open>covered\<close> at the record's
  \<open>stamp\<close>). The lemmas of this section follow the three loops of \<^verbatim>\<open>syncData\<close>: each
  statement covers the record it writes, no later statement of the same transaction
  uncovers it, and a statement leaves the records of other uuids alone. A removal is the
  one statement that can lower the newest mtime of its uuid (it deletes a newer live row),
  which is why the uuids of the removed list are kept apart from those of the updated list.
\<close>

lemma skips_covered:
  "skips s e \<longleftrightarrow> covered (db s) (uuid (entry e)) (toMSecsSinceEpoch (mTime e))"
  by (auto simp: skips_def covered_def live_mtime_def getSyncAffected_def
      syncData_of_row_def syncData_of_tombstone_def toMSecsSinceEpoch_def
      split: option.splits)

lemma classifyRemoved_skips:
  "\<forall>e \<in> set es. skips s e \<Longrightarrow> classifyRemoved s es = ([], [])"
  by (induction es) (auto simp: skips_def split: list.splits)

lemma classifyUpdated_skips:
  "\<forall>e \<in> set es. skips s e \<Longrightarrow> classifyUpdated s es = (([], []), ([], []))"
  by (induction es) (auto simp: skips_def split: list.splits)

lemma find_map_preserved:
  assumes "\<And>r. r \<in> set rs \<Longrightarrow> P (g r) = P r"
  shows "find P (map g rs) = map_option g (find P rs)"
  using assms by (induction rs) simp_all

lemma live_mtime_map:
  assumes "\<And>r. r \<in> set rs \<Longrightarrow> (r_uuid (g r) = u) = (r_uuid r = u)"
    and "\<And>r. r \<in> set rs \<Longrightarrow> r_uuid r = u \<Longrightarrow> r_mtime (g r) = r_mtime r"
  shows "map_option r_mtime (find (\<lambda>r. r_uuid r = u) (map g rs))
           = map_option r_mtime (find (\<lambda>r. r_uuid r = u) rs)"
  using assms by (induction rs) simp_all

lemma live_mtime_set_duration [simp]:
  "map_option r_mtime (find (\<lambda>r. r_uuid r = u) (set_duration k f rs))
     = map_option r_mtime (find (\<lambda>r. r_uuid r = u) rs)"
  unfolding set_duration_def by (rule live_mtime_map) simp_all

lemma live_mtime_filter_other:
  "u \<noteq> v \<Longrightarrow> find (\<lambda>r. r_uuid r = u) (filter (\<lambda>r. r_uuid r \<noteq> v) rs)
                 = find (\<lambda>r. r_uuid r = u) rs"
  by (induction rs) auto

lemma live_mtime_insert_timelog [simp]:
  "live_mtime (insert_timelog new d) u = live_mtime d u"
  by (simp add: live_mtime_def insert_timelog_def Let_def)

lemma live_mtime_update_timelog [simp]:
  "map_option r_mtime (find (\<lambda>r. r_uuid r = u) (update_timelog old new rs))
     = map_option r_mtime (find (\<lambda>r. r_uuid r = u) rs)"
  by (simp add: update_timelog_def Let_def)

lemma live_mtime_delete_timelog [simp]:
  "map_option r_mtime (find (\<lambda>r. r_uuid r = u) (delete_timelog old rs))
     = map_option r_mtime (find (\<lambda>r. r_uuid r = u) rs)"
  by (simp add: delete_timelog_def)

lemma find_append_other:
  "r_uuid new \<noteq> u \<Longrightarrow> find (\<lambda>r. r_uuid r = u) (rs @ [new]) = find (\<lambda>r. r_uuid r = u) rs"
  by (induction rs) auto

lemma find_append_new: "find P rs = None \<Longrightarrow> P x \<Longrightarrow> find P (rs @ [x]) = Some x"
  by (induction rs) (auto split: if_splits)

lemma frame_sql_insert_timelog:
  assumes "sql_insert_timelog v st c cm m d = Some (n, d')" and "u \<noteq> v"
  shows "live_mtime d' u = live_mtime d u \<and> removed d' u = removed d u"
proof (cases "check_insert_timelog d v m")
  case True
  then show ?thesis using assms(1) by (simp add: sql_insert_timelog_def)
next
  case False
  let ?new = "\<lparr>r_uuid = v, r_start = st, r_category = c, r_comment = cm,
               r_duration = None, r_mtime = m\<rparr>"
  have d': "d' = insert_timelog ?new (d\<lparr>timelog := timelog d @ [?new]\<rparr>)"
    using assms(1) False by (simp add: sql_insert_timelog_def Let_def split: if_splits)
  have "find (\<lambda>r. r_uuid r = u) (timelog d @ [?new]) = find (\<lambda>r. r_uuid r = u) (timelog d)"
    using assms(2) by (simp add: find_append_other)
  then have "live_mtime (d\<lparr>timelog := timelog d @ [?new]\<rparr>) u = live_mtime d u"
    by (simp add: live_mtime_def)
  then have "live_mtime d' u = live_mtime d u" unfolding d' by simp
  moreover have "removed d' u = removed d u" unfolding d' using assms(2) by simp
  ultimately show ?thesis by simp
qed

lemma sql_delete_timelog_find_other:
  assumes "u \<noteq> v"
  shows "map_option r_mtime (find (\<lambda>r. r_uuid r = u) (sql_delete_timelog v rs))
           = map_option r_mtime (find (\<lambda>r. r_uuid r = u) rs)"
proof (cases "find (\<lambda>r. r_uuid r = v) rs")
  case None
  then show ?thesis by (simp add: sql_delete_timelog_def)
next
  case (Some old)
  then show ?thesis using assms
    by (simp add: sql_delete_timelog_def live_mtime_filter_other)
qed

lemma frame_sql_insert_removed:
  assumes "u \<noteq> v"
  shows "live_mtime (snd (sql_insert_removed v m d)) u = live_mtime d u
       \<and> removed (snd (sql_insert_removed v m d)) u = removed d u"
  using assms
  by (simp add: sql_insert_removed_def live_mtime_def sql_delete_timelog_find_other)

lemma frame_sql_update_timelog:
  assumes r: "sql_update_timelog f v st c cm m d = Some d'" and ne: "u \<noteq> v"
  shows "live_mtime d' u = live_mtime d u \<and> removed d' u = removed d u"
proof (cases "find (\<lambda>r. r_uuid r = v) (timelog d)")
  case None
  then have "d' = d" using r by (simp add: sql_update_timelog_def split: if_splits)
  then show ?thesis by simp
next
  case (Some old)
  then have ou: "r_uuid old = v" using find_uuid_Some by blast
  show ?thesis
  proof (cases "m < r_mtime old")
    case True
    then have "d' = d" using r Some by (simp add: sql_update_timelog_def split: if_splits)
    then show ?thesis by simp
  next
    case False
    let ?new = "old\<lparr>r_start := (if StartTime \<in> f then st else r_start old),
                     r_category := (if Category \<in> f then c else r_category old),
                     r_comment := (if Comment \<in> f then cm else r_comment old),
                     r_mtime := m\<rparr>"
    let ?tl1 = "map (\<lambda>r. if r_uuid r = v then ?new else r) (timelog d)"
    have d': "d' = d\<lparr>timelog := (if StartTime \<in> f then update_timelog old ?new ?tl1 else ?tl1)\<rparr>"
      using r Some False by (simp add: sql_update_timelog_def Let_def split: if_splits)
    have "map_option r_mtime (find (\<lambda>r. r_uuid r = u) ?tl1)
            = map_option r_mtime (find (\<lambda>r. r_uuid r = u) (timelog d))"
      using ne ou by (intro live_mtime_map) auto
    then have "live_mtime d' u = live_mtime d u"
      unfolding d' by (simp add: live_mtime_def)
    moreover have "removed d' u = removed d u" unfolding d' by simp
    ultimately show ?thesis by simp
  qed
qed

lemma covers_sql_insert_timelog:
  assumes "sql_insert_timelog v st c cm m d = Some (n, d')"
  shows "covered d' v m"
proof (cases "check_insert_timelog d v m")
  case True
  then have "d' = d" using assms by (simp add: sql_insert_timelog_def)
  then show ?thesis using True
    by (auto simp: covered_def check_insert_timelog_def split: option.splits)
next
  case False
  let ?new = "\<lparr>r_uuid = v, r_start = st, r_category = c, r_comment = cm,
               r_duration = None, r_mtime = m\<rparr>"
  have fresh: "v \<notin> set (map r_uuid (timelog d))"
    using assms False by (auto simp: sql_insert_timelog_def split: if_splits)
  have d': "d' = insert_timelog ?new (d\<lparr>timelog := timelog d @ [?new]\<rparr>)"
    using assms False by (simp add: sql_insert_timelog_def Let_def split: if_splits)
  have "find (\<lambda>r. r_uuid r = v) (timelog d) = None" using fresh by (simp add: find_uuid_None)
  then have "find (\<lambda>r. r_uuid r = v) (timelog d @ [?new]) = Some ?new"
    by (rule find_append_new) simp
  then have "live_mtime (d\<lparr>timelog := timelog d @ [?new]\<rparr>) v = Some m"
    by (simp add: live_mtime_def)
  then have "live_mtime d' v = Some m" unfolding d' by simp
  then show ?thesis by (simp add: covered_def)
qed

lemma find_replace_same:
  "find (\<lambda>r. r_uuid r = v) rs = Some old \<Longrightarrow> r_uuid new = v \<Longrightarrow>
     find (\<lambda>r. r_uuid r = v) (map (\<lambda>r. if r_uuid r = v then new else r) rs) = Some new"
  by (induction rs) (auto split: if_splits)

lemma covers_sql_update_timelog:
  assumes r: "sql_update_timelog AllFieldsMask v st c cm m d = Some d'"
    and live: "live_mtime d v \<noteq> None"
  shows "covered d' v m"
proof -
  obtain old where old: "find (\<lambda>r. r_uuid r = v) (timelog d) = Some old"
    using live by (auto simp: live_mtime_def)
  then have ou: "r_uuid old = v" using find_uuid_Some by blast
  show ?thesis
  proof (cases "m < r_mtime old")
    case True
    then have "d' = d" using r old by (simp add: sql_update_timelog_def split: if_splits)
    then show ?thesis using True old by (simp add: covered_def live_mtime_def)
  next
    case False
    let ?new = "old\<lparr>r_start := st, r_category := c, r_comment := cm, r_mtime := m\<rparr>"
    let ?tl1 = "map (\<lambda>r. if r_uuid r = v then ?new else r) (timelog d)"
    have d': "d' = d\<lparr>timelog := update_timelog old ?new ?tl1\<rparr>"
      using r old False
      by (simp add: sql_update_timelog_def AllFieldsMask_def Let_def split: if_splits)
    have "find (\<lambda>r. r_uuid r = v) ?tl1 = Some ?new"
      using find_replace_same [OF old, of ?new] ou by simp
    then have "map_option r_mtime (find (\<lambda>r. r_uuid r = v) (update_timelog old ?new ?tl1)) = Some m"
      by simp
    then have "live_mtime d' v = Some m" unfolding d' by (simp add: live_mtime_def)
    then show ?thesis by (simp add: covered_def)
  qed
qed

lemma insertData_frame:
  assumes "u \<noteq> peerKey e"
  shows "live_mtime (db (snd (insertData now e s))) u = live_mtime (db s) u
       \<and> removed (db (snd (insertData now e s))) u = removed (db s) u"
proof -
  let ?q = "sql_insert_timelog (uuid (entry e)) (toTime_t (startTime (entry e)))
             (category (entry e)) (comment (entry e)) (mtime_or_now now e) (db s)"
  show ?thesis
  proof (cases ?q)
    case None
    then show ?thesis by (simp add: insertData_def)
  next
    case (Some p)
    obtain n d where p: "p = (n, d)" by (cases p)
    have "live_mtime d u = live_mtime (db s) u \<and> removed d u = removed (db s) u"
      using frame_sql_insert_timelog [of "uuid (entry e)" _ _ _ _ "db s" n d u] Some p assms
      by (simp add: peerKey_def)
    then show ?thesis using Some p by (simp add: insertData_def)
  qed
qed

lemma removeData_frame:
  assumes "u \<noteq> peerKey e"
  shows "live_mtime (db (snd (removeData now e s))) u = live_mtime (db s) u
       \<and> removed (db (snd (removeData now e s))) u = removed (db s) u"
proof -
  obtain n d where q: "sql_insert_removed (uuid (entry e)) (mtime_or_now now e) (db s) = (n, d)"
    by (cases "sql_insert_removed (uuid (entry e)) (mtime_or_now now e) (db s)")
  have "live_mtime d u = live_mtime (db s) u \<and> removed d u = removed (db s) u"
    using frame_sql_insert_removed [of u "uuid (entry e)" "mtime_or_now now e" "db s"] q assms
    by (simp add: peerKey_def)
  then show ?thesis using q by (simp add: removeData_def)
qed

lemma editData_frame:
  assumes "u \<noteq> peerKey e"
  shows "live_mtime (db (snd (editData now e f s))) u = live_mtime (db s) u
       \<and> removed (db (snd (editData now e f s))) u = removed (db s) u"
proof -
  let ?q = "sql_update_timelog f (uuid (entry e)) (toTime_t (startTime (entry e)))
             (category (entry e)) (comment (entry e)) (mtime_or_now now e) (db s)"
  show ?thesis
  proof (cases ?q)
    case None
    then show ?thesis by (simp add: editData_def)
  next
    case (Some d)
    have "live_mtime d u = live_mtime (db s) u \<and> removed d u = removed (db s) u"
      using frame_sql_update_timelog [OF Some] assms by (simp add: peerKey_def)
    then show ?thesis using Some by (simp add: editData_def)
  qed
qed

lemma covered_cong:
  "live_mtime d' u = live_mtime d u \<Longrightarrow> removed d' u = removed d u \<Longrightarrow>
     covered d' u m = covered d u m"
  by (simp add: covered_def)

lemma run_all_frame:
  assumes fr: "\<And>x s u. u \<noteq> k x \<Longrightarrow>
      live_mtime (db (snd (f x s))) u = live_mtime (db s) u
      \<and> removed (db (snd (f x s))) u = removed (db s) u"
    and out: "u \<notin> set (map k xs)"
  shows "live_mtime (db (snd (run_all f xs s))) u = live_mtime (db s) u
       \<and> removed (db (snd (run_all f xs s))) u = removed (db s) u"
  using out
proof (induction xs arbitrary: s)
  case Nil
  show ?case by simp
next
  case (Cons y ys)
  obtain b s1 where fy: "f y s = (b, s1)" by (cases "f y s")
  have ne: "u \<noteq> k y" and out': "u \<notin> set (map k ys)" using Cons.prems by auto
  have s1: "live_mtime (db s1) u = live_mtime (db s) u \<and> removed (db s1) u = removed (db s) u"
    using fr [OF ne, of s] fy by simp
  show ?case
  proof (cases b)
    case True
    then show ?thesis using Cons.IH [OF out', of s1] s1 fy by simp
  next
    case False
    then show ?thesis using s1 fy by simp
  qed
qed

lemma classifyRemoved_Cons:
  "classifyRemoved s (e # es) =
     (if skips s e then classifyRemoved s es
      else (e # fst (classifyRemoved s es),
            (case getSyncAffected (uuid (entry e)) s of [] \<Rightarrow> emptySyncData | a # _ \<Rightarrow> a)
              # snd (classifyRemoved s es)))"
  by (cases "getSyncAffected (uuid (entry e)) s")
     (simp_all add: skips_def split: prod.splits)

lemma classifyRemoved_new:
  "fst (classifyRemoved s es) = filter (\<lambda>e. \<not> skips s e) es"
proof (induction es)
  case Nil
  show ?case by simp
next
  case (Cons e es)
  show ?case unfolding classifyRemoved_Cons using Cons by simp
qed

lemma classifyRemoved_length:
  "length (snd (classifyRemoved s es)) = length (fst (classifyRemoved s es))"
proof (induction es)
  case Nil
  show ?case by simp
next
  case (Cons e es)
  show ?case unfolding classifyRemoved_Cons using Cons by simp
qed

lemma classifyUpdated_Cons:
  "classifyUpdated s (e # es) =
     (if skips s e then classifyUpdated s es
      else if classedInsert s e
      then ((e # fst (fst (classifyUpdated s es)),
             (case getSyncAffected (uuid (entry e)) s of [] \<Rightarrow> emptySyncData | a # _ \<Rightarrow> a)
               # snd (fst (classifyUpdated s es))),
            snd (classifyUpdated s es))
      else (fst (classifyUpdated s es),
            (e # fst (snd (classifyUpdated s es)),
             (case getSyncAffected (uuid (entry e)) s of [] \<Rightarrow> emptySyncData | a # _ \<Rightarrow> a)
               # snd (snd (classifyUpdated s es)))))"
  by (cases "getSyncAffected (uuid (entry e)) s")
     (simp_all add: skips_def classedInsert_def split: prod.splits)

lemma classifyUpdated_inserted:
  "fst (fst (classifyUpdated s es)) = filter (\<lambda>e. \<not> skips s e \<and> classedInsert s e) es"
proof (induction es)
  case Nil
  show ?case by simp
next
  case (Cons e es)
  show ?case unfolding classifyUpdated_Cons using Cons by simp
qed

lemma classifyUpdated_updated:
  "fst (snd (classifyUpdated s es)) = filter (\<lambda>e. \<not> skips s e \<and> \<not> classedInsert s e) es"
proof (induction es)
  case Nil
  show ?case by simp
next
  case (Cons e es)
  show ?case unfolding classifyUpdated_Cons using Cons by simp
qed

lemma removedMerged_keys:
  assumes "length ro = length rn"
  shows "map peerKey (removedMerged ro rn) = map peerKey rn
       \<and> map mTime (removedMerged ro rn) = map mTime rn"
  unfolding removedMerged_def using assms
  by (induction ro rn rule: list_induct2) (simp_all add: peerKey_def)

lemma not_classedInsert_live:
  assumes "\<not> classedInsert s e"
  shows "live_mtime (db s) (peerKey e) \<noteq> None"
proof -
  have "find (\<lambda>r. r_uuid r = uuid (entry e)) (timelog (db s)) \<noteq> None"
  proof
    assume n: "find (\<lambda>r. r_uuid r = uuid (entry e)) (timelog (db s)) = None"
    have "classedInsert s e"
      using n
      by (cases "removed (db s) (uuid (entry e))")
         (simp_all add: classedInsert_def getSyncAffected_def syncData_of_tombstone_def
            isValid_def emptyEntry_def)
    then show False using assms by simp
  qed
  then show ?thesis by (simp add: live_mtime_def peerKey_def)
qed

lemma syncData_True:
  assumes "syncData now rm ins un uo s = (True, s')"
  shows "\<exists>a1 a2 a3. run_all (removeData now) rm s = (True, a1)
           \<and> run_all (insertData now) ins a1 = (True, a2)
           \<and> run_all (\<lambda>e. editData now e AllFieldsMask) un a2 = (True, a3)
           \<and> db s' = db a3"
proof -
  obtain b1 a1 where r1: "run_all (removeData now) rm s = (b1, a1)"
    by (cases "run_all (removeData now) rm s")
  obtain b2 a2 where r2: "run_all (insertData now) ins a1 = (b2, a2)"
    by (cases "run_all (insertData now) ins a1")
  obtain b3 a3 where r3: "run_all (\<lambda>e. editData now e AllFieldsMask) un a2 = (b3, a3)"
    by (cases "run_all (\<lambda>e. editData now e AllFieldsMask) un a2")
  have "b1 \<and> b2 \<and> b3 \<and> db s' = db a3"
    using assms r1 r2 r3 by (cases b1; cases b2; cases b3) (auto simp: syncData_def)
  then show ?thesis using r1 r2 r3 by auto
qed

lemma covered_mono: "m' \<le> m \<Longrightarrow> covered d u m \<Longrightarrow> covered d u m'"
  by (auto simp: covered_def split: option.splits)

lemma buried_covered: "buried d u m \<Longrightarrow> covered d u m"
  by (simp add: buried_def covered_def)

lemma buried_sql_insert_removed: "buried (snd (sql_insert_removed v m d)) v m"
  by (auto simp: sql_insert_removed_def check_insert_removed_def buried_def
      split: option.splits)

lemma keeps_sql_insert_removed:
  "buried d u m' \<Longrightarrow> buried (snd (sql_insert_removed v m d)) u m'"
  by (auto simp: sql_insert_removed_def check_insert_removed_def buried_def
      split: option.splits)

lemma keeps_sql_insert_timelog:
  assumes r: "sql_insert_timelog v st c cm m d = Some (n, d')" and c: "covered d v m'"
  shows "covered d' v m'"
proof (cases "check_insert_timelog d v m")
  case True
  then have "d' = d" using r by (simp add: sql_insert_timelog_def)
  then show ?thesis using c by simp
next
  case False
  have fresh: "v \<notin> set (map r_uuid (timelog d))"
    using r False by (auto simp: sql_insert_timelog_def split: if_splits)
  then have "find (\<lambda>r. r_uuid r = v) (timelog d) = None" by (simp add: find_uuid_None)
  then have "live_mtime d v = None" by (simp add: live_mtime_def)
  then obtain k where k: "removed d v = Some k" "m' \<le> k"
    using c by (auto simp: covered_def split: option.splits)
  have "\<not> m < k" using False k(1) by (simp add: check_insert_timelog_def)
  then have "m' \<le> m" using k(2) by simp
  then show ?thesis using covers_sql_insert_timelog [OF r] by (rule covered_mono)
qed

lemma removed_sql_update_timelog:
  assumes "sql_update_timelog f v st c cm m d = Some d'"
  shows "removed d' = removed d"
  using assms
  by (auto simp: sql_update_timelog_def Let_def split: if_splits option.splits)

lemma live_sql_update_timelog:
  assumes r: "sql_update_timelog AllFieldsMask v st c cm m d = Some d'"
    and l: "live_mtime d v = Some k"
  shows "\<exists>k'. live_mtime d' v = Some k' \<and> k \<le> k'"
proof -
  obtain old where old: "find (\<lambda>r. r_uuid r = v) (timelog d) = Some old" and ko: "r_mtime old = k"
    using l by (auto simp: live_mtime_def)
  then have ou: "r_uuid old = v" using find_uuid_Some by blast
  show ?thesis
  proof (cases "m < r_mtime old")
    case True
    then have "d' = d" using r old by (simp add: sql_update_timelog_def split: if_splits)
    then show ?thesis using l by simp
  next
    case False
    let ?new = "old\<lparr>r_start := st, r_category := c, r_comment := cm, r_mtime := m\<rparr>"
    let ?tl1 = "map (\<lambda>r. if r_uuid r = v then ?new else r) (timelog d)"
    have d': "d' = d\<lparr>timelog := update_timelog old ?new ?tl1\<rparr>"
      using r old False
      by (simp add: sql_update_timelog_def AllFieldsMask_def Let_def split: if_splits)
    have "find (\<lambda>r. r_uuid r = v) ?tl1 = Some ?new"
      using find_replace_same [OF old, of ?new] ou by simp
    then have "map_option r_mtime (find (\<lambda>r. r_uuid r = v) (update_timelog old ?new ?tl1)) = Some m"
      by simp
    then have "live_mtime d' v = Some m" unfolding d' by (simp add: live_mtime_def)
    then show ?thesis using False ko by simp
  qed
qed

lemma keeps_sql_update_timelog:
  assumes r: "sql_update_timelog AllFieldsMask v st c cm m d = Some d'" and c: "covered d v m'"
  shows "covered d' v m'"
proof (cases "live_mtime d v")
  case None
  then have "find (\<lambda>r. r_uuid r = v) (timelog d) = None" by (simp add: live_mtime_def)
  then have "d' = d" using r by (simp add: sql_update_timelog_def split: if_splits)
  then show ?thesis using c by simp
next
  case (Some k)
  obtain k' where k': "live_mtime d' v = Some k'" "k \<le> k'"
    using live_sql_update_timelog [OF r Some] by blast
  have rm: "removed d' v = removed d v" using removed_sql_update_timelog [OF r] by simp
  show ?thesis using c Some k' rm by (auto simp: covered_def split: option.splits)
qed

lemma removeData_db:
  assumes "removeData now e s = (b, s')"
  shows "db s' = snd (sql_insert_removed (peerKey e) (mtime_or_now now e) (db s))"
  using assms by (auto simp: removeData_def peerKey_def split: prod.splits)

lemma insertData_db:
  assumes "insertData now e s = (True, s')"
  shows "\<exists>n. sql_insert_timelog (peerKey e) (toTime_t (startTime (entry e)))
             (category (entry e)) (comment (entry e)) (mtime_or_now now e) (db s)
           = Some (n, db s')"
  using assms by (auto simp: insertData_def peerKey_def split: option.splits)

lemma editData_db:
  assumes "editData now e f s = (True, s')"
  shows "sql_update_timelog f (peerKey e) (toTime_t (startTime (entry e)))
             (category (entry e)) (comment (entry e)) (mtime_or_now now e) (db s)
           = Some (db s')"
  using assms by (auto simp: editData_def peerKey_def split: option.splits if_splits)

lemma removeData_buries:
  assumes "removeData now e s = (True, s')"
  shows "buried (db s') (peerKey e) (mtime_or_now now e)"
  unfolding removeData_db [OF assms] by (rule buried_sql_insert_removed)

lemma removeData_keeps:
  assumes "removeData now e s = (True, s')" and "buried (db s) u m"
  shows "buried (db s') u m"
  unfolding removeData_db [OF assms(1)] using assms(2) by (rule keeps_sql_insert_removed)

lemma insertData_covers:
  assumes "insertData now e s = (True, s')"
  shows "covered (db s') (peerKey e) (mtime_or_now now e)"
  using insertData_db [OF assms] covers_sql_insert_timelog by blast

lemma insertData_keeps:
  assumes ok: "insertData now e s = (True, s')" and c: "covered (db s) u m"
  shows "covered (db s') u m"
proof (cases "u = peerKey e")
  case True
  then show ?thesis using insertData_db [OF ok] keeps_sql_insert_timelog c by blast
next
  case False
  have "live_mtime (db (snd (insertData now e s))) u = live_mtime (db s) u
      \<and> removed (db (snd (insertData now e s))) u = removed (db s) u"
    using False by (rule insertData_frame)
  then have "live_mtime (db s') u = live_mtime (db s) u" "removed (db s') u = removed (db s) u"
    using ok by simp_all
  then have "covered (db s') u m = covered (db s) u m" by (rule covered_cong)
  then show ?thesis using c by simp
qed

lemma editData_covers:
  assumes ok: "editData now e AllFieldsMask s = (True, s')"
    and l: "live_mtime (db s) (peerKey e) \<noteq> None"
  shows "covered (db s') (peerKey e) (mtime_or_now now e)"
  using editData_db [OF ok] l by (rule covers_sql_update_timelog)

lemma editData_keeps:
  assumes ok: "editData now e AllFieldsMask s = (True, s')" and c: "covered (db s) u m"
  shows "covered (db s') u m"
proof (cases "u = peerKey e")
  case True
  then show ?thesis using editData_db [OF ok] keeps_sql_update_timelog c by blast
next
  case False
  have "live_mtime (db (snd (editData now e AllFieldsMask s))) u = live_mtime (db s) u
      \<and> removed (db (snd (editData now e AllFieldsMask s))) u = removed (db s) u"
    using False by (rule editData_frame)
  then have "live_mtime (db s') u = live_mtime (db s) u" "removed (db s') u = removed (db s) u"
    using ok by simp_all
  then have "covered (db s') u m = covered (db s) u m" by (rule covered_cong)
  then show ?thesis using c by simp
qed

lemma editData_keeps_live:
  assumes ok: "editData now e AllFieldsMask s = (True, s')"
    and l: "live_mtime (db s) u \<noteq> None"
  shows "live_mtime (db s') u \<noteq> None"
proof (cases "u = peerKey e")
  case True
  obtain k where k: "live_mtime (db s) (peerKey e) = Some k" using l True by auto
  show ?thesis using live_sql_update_timelog [OF editData_db [OF ok] k] True by auto
next
  case False
  have "live_mtime (db (snd (editData now e AllFieldsMask s))) u = live_mtime (db s) u
      \<and> removed (db (snd (editData now e AllFieldsMask s))) u = removed (db s) u"
    using False by (rule editData_frame)
  then have "live_mtime (db s') u = live_mtime (db s) u" using ok by simp
  then show ?thesis using l by simp
qed

lemma run_all_keeps:
  assumes keep: "\<And>x s s'. f x s = (True, s') \<Longrightarrow> C (db s) \<Longrightarrow> C (db s')"
    and ok: "run_all f xs s = (True, s')" and c: "C (db s)"
  shows "C (db s')"
  using ok c
proof (induction xs arbitrary: s)
  case Nil
  then show ?case by simp
next
  case (Cons y ys)
  obtain b s1 where y: "f y s = (b, s1)" by (cases "f y s")
  have b: "b" using Cons.prems(1) y by (cases b) simp_all
  have y': "f y s = (True, s1)" using y b by simp
  have r: "run_all f ys s1 = (True, s')" using Cons.prems(1) y b by simp
  have "C (db s1)" using y' Cons.prems(2) by (rule keep)
  then show ?case by (rule Cons.IH [OF r])
qed

lemma run_all_establishes:
  assumes keep: "\<And>y s s'. f y s = (True, s') \<Longrightarrow> C (db s) \<Longrightarrow> C (db s')"
    and pkeep: "\<And>y s s'. f y s = (True, s') \<Longrightarrow> P (db s) \<Longrightarrow> P (db s')"
    and cv: "\<And>s s'. f x s = (True, s') \<Longrightarrow> P (db s) \<Longrightarrow> C (db s')"
    and ok: "run_all f xs s = (True, s')" and x: "x \<in> set xs" and p: "P (db s)"
  shows "C (db s')"
  using ok x p
proof (induction xs arbitrary: s)
  case Nil
  then show ?case by simp
next
  case (Cons y ys)
  obtain b s1 where y: "f y s = (b, s1)" by (cases "f y s")
  have b: "b" using Cons.prems(1) y by (cases b) simp_all
  have y': "f y s = (True, s1)" using y b by simp
  have r: "run_all f ys s1 = (True, s')" using Cons.prems(1) y b by simp
  have p1: "P (db s1)" using pkeep [OF y' Cons.prems(3)] .
  show ?case
  proof (cases "x \<in> set ys")
    case True
    show ?thesis using Cons.IH [OF r True p1] .
  next
    case False
    then have xy: "y = x" using Cons.prems(2) by simp
    have c1: "C (db s1)" using y' Cons.prems(3) unfolding xy by (rule cv)
    show ?thesis
    proof (rule run_all_keeps [where f=f and C=C and xs=ys and s=s1 and s'=s'])
      show "\<And>x s s'. f x s = (True, s') \<Longrightarrow> C (db s) \<Longrightarrow> C (db s')" by (rule keep)
      show "run_all f ys s1 = (True, s')" by (rule r)
      show "C (db s1)" by (rule c1)
    qed
  qed
qed

lemma merge_establishes:
  assumes ok: "syncData now rm ins un uo s = (True, s')"
  shows "(\<forall>x \<in> set rm. covered (db s') (peerKey x) (mtime_or_now now x))
       \<and> (\<forall>x \<in> set ins. covered (db s') (peerKey x) (mtime_or_now now x))
       \<and> (\<forall>x \<in> set un. live_mtime (db s) (peerKey x) \<noteq> None
             \<longrightarrow> peerKey x \<notin> set (map peerKey rm) \<longrightarrow> peerKey x \<notin> set (map peerKey ins)
             \<longrightarrow> covered (db s') (peerKey x) (mtime_or_now now x))
       \<and> (\<forall>u m. covered (db s) u m \<longrightarrow> u \<notin> set (map peerKey rm) \<longrightarrow> covered (db s') u m)"
proof -
  obtain a1 a2 a3 where r1: "run_all (removeData now) rm s = (True, a1)"
    and r2: "run_all (insertData now) ins a1 = (True, a2)"
    and r3: "run_all (\<lambda>e. editData now e AllFieldsMask) un a2 = (True, a3)"
    and dbs: "db s' = db a3"
    using syncData_True [OF ok] by blast
  have k2: "\<And>u m. covered (db a1) u m \<Longrightarrow> covered (db a2) u m"
  proof -
    fix u m assume c: "covered (db a1) u m"
    show "covered (db a2) u m"
    proof (rule run_all_keeps [where f="insertData now" and C="\<lambda>d. covered d u m"
          and xs=ins and s=a1 and s'=a2])
      show "\<And>x s s'. insertData now x s = (True, s') \<Longrightarrow> covered (db s) u m
              \<Longrightarrow> covered (db s') u m" by (rule insertData_keeps)
      show "run_all (insertData now) ins a1 = (True, a2)" by (rule r2)
      show "covered (db a1) u m" by (rule c)
    qed
  qed
  have k3: "\<And>u m. covered (db a2) u m \<Longrightarrow> covered (db a3) u m"
  proof -
    fix u m assume c: "covered (db a2) u m"
    show "covered (db a3) u m"
    proof (rule run_all_keeps [where f="\<lambda>e. editData now e AllFieldsMask"
          and C="\<lambda>d. covered d u m" and xs=un and s=a2 and s'=a3])
      show "\<And>x s s'. editData now x AllFieldsMask s = (True, s') \<Longrightarrow> covered (db s) u m
              \<Longrightarrow> covered (db s') u m" by (rule editData_keeps)
      show "run_all (\<lambda>e. editData now e AllFieldsMask) un a2 = (True, a3)" by (rule r3)
      show "covered (db a2) u m" by (rule c)
    qed
  qed
  have f1: "\<And>u. u \<notin> set (map peerKey rm) \<Longrightarrow>
      live_mtime (db a1) u = live_mtime (db s) u \<and> removed (db a1) u = removed (db s) u"
  proof -
    fix u assume "u \<notin> set (map peerKey rm)"
    then have "live_mtime (db (snd (run_all (removeData now) rm s))) u = live_mtime (db s) u
       \<and> removed (db (snd (run_all (removeData now) rm s))) u = removed (db s) u"
      using run_all_frame [where f="removeData now" and k=peerKey and xs=rm and s=s and u=u]
        removeData_frame by blast
    then show "live_mtime (db a1) u = live_mtime (db s) u \<and> removed (db a1) u = removed (db s) u"
      unfolding r1 by simp
  qed
  have f2: "\<And>u. u \<notin> set (map peerKey ins) \<Longrightarrow>
      live_mtime (db a2) u = live_mtime (db a1) u \<and> removed (db a2) u = removed (db a1) u"
  proof -
    fix u assume "u \<notin> set (map peerKey ins)"
    then have "live_mtime (db (snd (run_all (insertData now) ins a1))) u = live_mtime (db a1) u
       \<and> removed (db (snd (run_all (insertData now) ins a1))) u = removed (db a1) u"
      using run_all_frame [where f="insertData now" and k=peerKey and xs=ins and s=a1 and u=u]
        insertData_frame by blast
    then show "live_mtime (db a2) u = live_mtime (db a1) u \<and> removed (db a2) u = removed (db a1) u"
      unfolding r2 by simp
  qed
  have A1: "\<forall>x \<in> set rm. covered (db s') (peerKey x) (mtime_or_now now x)"
  proof
    fix x assume x: "x \<in> set rm"
    have "buried (db a1) (peerKey x) (mtime_or_now now x)"
    proof (rule run_all_establishes [where f="removeData now"
          and C="\<lambda>d. buried d (peerKey x) (mtime_or_now now x)" and P="\<lambda>d. True"
          and x=x and xs=rm and s=s and s'=a1])
      show "\<And>y s s'. removeData now y s = (True, s')
              \<Longrightarrow> buried (db s) (peerKey x) (mtime_or_now now x)
              \<Longrightarrow> buried (db s') (peerKey x) (mtime_or_now now x)"
        by (rule removeData_keeps)
      show "\<And>y s s'. removeData now y s = (True, s') \<Longrightarrow> True \<Longrightarrow> True" by simp
      show "\<And>s s'. removeData now x s = (True, s') \<Longrightarrow> True
              \<Longrightarrow> buried (db s') (peerKey x) (mtime_or_now now x)"
        by (rule removeData_buries)
      show "run_all (removeData now) rm s = (True, a1)" by (rule r1)
      show "x \<in> set rm" by (rule x)
      show "True" by simp
    qed
    then have "covered (db a1) (peerKey x) (mtime_or_now now x)" by (rule buried_covered)
    then have "covered (db a3) (peerKey x) (mtime_or_now now x)" using k2 k3 by blast
    then show "covered (db s') (peerKey x) (mtime_or_now now x)" using dbs by simp
  qed
  have A2: "\<forall>x \<in> set ins. covered (db s') (peerKey x) (mtime_or_now now x)"
  proof
    fix x assume x: "x \<in> set ins"
    have "covered (db a2) (peerKey x) (mtime_or_now now x)"
    proof (rule run_all_establishes [where f="insertData now"
          and C="\<lambda>d. covered d (peerKey x) (mtime_or_now now x)" and P="\<lambda>d. True"
          and x=x and xs=ins and s=a1 and s'=a2])
      show "\<And>y s s'. insertData now y s = (True, s')
              \<Longrightarrow> covered (db s) (peerKey x) (mtime_or_now now x)
              \<Longrightarrow> covered (db s') (peerKey x) (mtime_or_now now x)"
        by (rule insertData_keeps)
      show "\<And>y s s'. insertData now y s = (True, s') \<Longrightarrow> True \<Longrightarrow> True" by simp
      show "\<And>s s'. insertData now x s = (True, s') \<Longrightarrow> True
              \<Longrightarrow> covered (db s') (peerKey x) (mtime_or_now now x)"
        by (rule insertData_covers)
      show "run_all (insertData now) ins a1 = (True, a2)" by (rule r2)
      show "x \<in> set ins" by (rule x)
      show "True" by simp
    qed
    then have "covered (db a3) (peerKey x) (mtime_or_now now x)" by (rule k3)
    then show "covered (db s') (peerKey x) (mtime_or_now now x)" using dbs by simp
  qed
  have A3: "\<forall>x \<in> set un. live_mtime (db s) (peerKey x) \<noteq> None
             \<longrightarrow> peerKey x \<notin> set (map peerKey rm) \<longrightarrow> peerKey x \<notin> set (map peerKey ins)
             \<longrightarrow> covered (db s') (peerKey x) (mtime_or_now now x)"
  proof (intro ballI impI)
    fix x assume x: "x \<in> set un" and l: "live_mtime (db s) (peerKey x) \<noteq> None"
      and n1: "peerKey x \<notin> set (map peerKey rm)" and n2: "peerKey x \<notin> set (map peerKey ins)"
    have "live_mtime (db a2) (peerKey x) = live_mtime (db s) (peerKey x)"
      using f1 [OF n1] f2 [OF n2] by simp
    then have l2: "live_mtime (db a2) (peerKey x) \<noteq> None" using l by simp
    have "covered (db a3) (peerKey x) (mtime_or_now now x)"
    proof (rule run_all_establishes [where f="\<lambda>e. editData now e AllFieldsMask"
          and C="\<lambda>d. covered d (peerKey x) (mtime_or_now now x)"
          and P="\<lambda>d. live_mtime d (peerKey x) \<noteq> None"
          and x=x and xs=un and s=a2 and s'=a3])
      show "\<And>y s s'. editData now y AllFieldsMask s = (True, s')
              \<Longrightarrow> covered (db s) (peerKey x) (mtime_or_now now x)
              \<Longrightarrow> covered (db s') (peerKey x) (mtime_or_now now x)"
        by (rule editData_keeps)
      show "\<And>y s s'. editData now y AllFieldsMask s = (True, s')
              \<Longrightarrow> live_mtime (db s) (peerKey x) \<noteq> None
              \<Longrightarrow> live_mtime (db s') (peerKey x) \<noteq> None"
        by (rule editData_keeps_live)
      show "\<And>s s'. editData now x AllFieldsMask s = (True, s')
              \<Longrightarrow> live_mtime (db s) (peerKey x) \<noteq> None
              \<Longrightarrow> covered (db s') (peerKey x) (mtime_or_now now x)"
        by (rule editData_covers)
      show "run_all (\<lambda>e. editData now e AllFieldsMask) un a2 = (True, a3)" by (rule r3)
      show "x \<in> set un" by (rule x)
      show "live_mtime (db a2) (peerKey x) \<noteq> None" by (rule l2)
    qed
    then show "covered (db s') (peerKey x) (mtime_or_now now x)" using dbs by simp
  qed
  have B: "\<forall>u m. covered (db s) u m \<longrightarrow> u \<notin> set (map peerKey rm) \<longrightarrow> covered (db s') u m"
  proof (intro allI impI)
    fix u m assume c: "covered (db s) u m" and n: "u \<notin> set (map peerKey rm)"
    have "live_mtime (db a1) u = live_mtime (db s) u" "removed (db a1) u = removed (db s) u"
      using f1 [OF n] by simp_all
    then have "covered (db a1) u m = covered (db s) u m" by (rule covered_cong)
    then have "covered (db a1) u m" using c by simp
    then have "covered (db a3) u m" using k2 k3 by blast
    then show "covered (db s') u m" using dbs by simp
  qed
  show ?thesis using A1 A2 A3 B by blast
qed

lemma run_all_False_last:
  assumes st: "\<And>x s s'. f x s = (False, s') \<Longrightarrow> emitted s' \<noteq> [] \<and> last (emitted s') = e"
    and r: "run_all f xs s = (False, s')"
  shows "emitted s' \<noteq> [] \<and> last (emitted s') = e"
  using r
proof (induction xs arbitrary: s)
  case Nil
  then show ?case by simp
next
  case (Cons y ys)
  obtain b s1 where y: "f y s = (b, s1)" by (cases "f y s")
  show ?case
  proof (cases b)
    case True
    then have "run_all f ys s1 = (False, s')" using Cons.prems y by simp
    then show ?thesis by (rule Cons.IH)
  next
    case False
    then have "f y s = (False, s')" using Cons.prems y by simp
    then show ?thesis by (rule st)
  qed
qed

lemma removeData_True: "fst (removeData now e s)"
  by (simp add: removeData_def split: prod.splits)

lemma insertData_False_last:
  "insertData now x s = (False, s') \<Longrightarrow> emitted s' \<noteq> [] \<and> last (emitted s') = Error SqlLastError"
  by (auto simp: insertData_def split: option.splits)

lemma editData_False_last:
  "editData now x f s = (False, s') \<Longrightarrow> emitted s' \<noteq> [] \<and> last (emitted s') = Error SqlLastError"
  by (auto simp: editData_def split: option.splits)

lemma removeData_False_last:
  "removeData now x s = (False, s') \<Longrightarrow> emitted s' \<noteq> [] \<and> last (emitted s') = Error SqlLastError"
  using removeData_True [of now x s] by simp

lemma syncData_False_last:
  assumes r: "syncData now rm ins un uo s = (False, s')"
  shows "emitted s' \<noteq> [] \<and> last (emitted s') = Error SqlLastError"
proof -
  obtain b1 a1 where r1: "run_all (removeData now) rm s = (b1, a1)"
    by (cases "run_all (removeData now) rm s")
  obtain b2 a2 where r2: "run_all (insertData now) ins a1 = (b2, a2)"
    by (cases "run_all (insertData now) ins a1")
  obtain b3 a3 where r3: "run_all (\<lambda>e. editData now e AllFieldsMask) un a2 = (b3, a3)"
    by (cases "run_all (\<lambda>e. editData now e AllFieldsMask) un a2")
  show ?thesis
  proof (cases b1)
    case False
    then have e: "emitted s' = emitted a1" using r r1 by (auto simp: syncData_def)
    have "run_all (removeData now) rm s = (False, a1)" using r1 False by simp
    have "emitted a1 \<noteq> [] \<and> last (emitted a1) = Error SqlLastError"
    proof (rule run_all_False_last [where f="removeData now" and xs=rm and s=s and s'=a1])
      show "\<And>x s s'. removeData now x s = (False, s')
              \<Longrightarrow> emitted s' \<noteq> [] \<and> last (emitted s') = Error SqlLastError"
        by (rule removeData_False_last)
      show "run_all (removeData now) rm s = (False, a1)" by fact
    qed
    then show ?thesis using e by simp
  next
    case b1: True
    show ?thesis
    proof (cases b2)
      case False
      then have e: "emitted s' = emitted a2" using r r1 r2 b1 by (auto simp: syncData_def)
      have "run_all (insertData now) ins a1 = (False, a2)" using r2 False by simp
      have "emitted a2 \<noteq> [] \<and> last (emitted a2) = Error SqlLastError"
      proof (rule run_all_False_last [where f="insertData now" and xs=ins and s=a1 and s'=a2])
        show "\<And>x s s'. insertData now x s = (False, s')
                \<Longrightarrow> emitted s' \<noteq> [] \<and> last (emitted s') = Error SqlLastError"
          by (rule insertData_False_last)
        show "run_all (insertData now) ins a1 = (False, a2)" by fact
      qed
      then show ?thesis using e by simp
    next
      case b2: True
      have b3: "\<not> b3" using r r1 r2 r3 b1 b2 by (cases b3) (simp_all add: syncData_def)
      then have e: "emitted s' = emitted a3" using r r1 r2 r3 b1 b2 by (auto simp: syncData_def)
      have "run_all (\<lambda>e. editData now e AllFieldsMask) un a2 = (False, a3)" using r3 b3 by simp
      have "emitted a3 \<noteq> [] \<and> last (emitted a3) = Error SqlLastError"
      proof (rule run_all_False_last [where f="\<lambda>e. editData now e AllFieldsMask"
            and xs=un and s=a2 and s'=a3])
        show "\<And>x s s'. editData now x AllFieldsMask s = (False, s')
                \<Longrightarrow> emitted s' \<noteq> [] \<and> last (emitted s') = Error SqlLastError"
          by (rule editData_False_last)
        show "run_all (\<lambda>e. editData now e AllFieldsMask) un a2 = (False, a3)" by fact
      qed
      then show ?thesis using e by simp
    qed
  qed
qed

lemma sync_committed:
  assumes c: "last (emitted (sync now U R s)) = DataSynced U R"
  shows "\<exists>s0 s2. db s0 = db s
     \<and> syncData now (removedMerged (snd (classifyRemoved s R)) (fst (classifyRemoved s R)))
          (fst (fst (classifyUpdated s U))) (fst (snd (classifyUpdated s U)))
          (snd (snd (classifyUpdated s U))) s0 = (True, s2)
     \<and> db (sync now U R s) = db s2"
proof -
  obtain rn ro where cr: "classifyRemoved s R = (rn, ro)" by (cases "classifyRemoved s R")
  obtain inn ino unn uno where cu: "classifyUpdated s U = ((inn, ino), (unn, uno))"
    by (cases "classifyUpdated s U") auto
  let ?s0 = "emit (SyncStatsAvailable ro rn ino inn uno unn) s"
  obtain b s2 where sd: "syncData now (removedMerged ro rn) inn unn uno ?s0 = (b, s2)"
    by (cases "syncData now (removedMerged ro rn) inn unn uno ?s0")
  have sy: "sync now U R s = (if b then emit (DataSynced U R) s2 else s2)"
    using cr cu sd by (cases b) (simp_all add: sync_def)
  have b: "b"
  proof (rule ccontr)
    assume nb: "\<not> b"
    then have "syncData now (removedMerged ro rn) inn unn uno ?s0 = (False, s2)" using sd by simp
    then have "last (emitted s2) = Error SqlLastError" using syncData_False_last by blast
    then show False using c sy nb by simp
  qed
  have "db ?s0 = db s" by simp
  moreover have "syncData now (removedMerged ro rn) inn unn uno ?s0 = (True, s2)"
    using sd b by simp
  moreover have "db (sync now U R s) = db s2" using sy b by simp
  ultimately show ?thesis unfolding cr cu by (intro exI conjI) simp_all
qed

lemma classedInsert_key:
  "peerKey e = peerKey e' \<Longrightarrow> classedInsert s e = classedInsert s e'"
  by (simp add: classedInsert_def peerKey_def)

lemma skips_stamp: "skips s e \<longleftrightarrow> covered (db s) (peerKey e) (stamp e)"
  by (simp add: skips_covered peerKey_def stamp_def)

lemma stamp_le:
  assumes "mTime e \<noteq> None \<or> 0 \<le> now"
  shows "stamp e \<le> mtime_or_now now e"
  using assms by (cases "mTime e") (simp_all add: stamp_def mtime_or_now_def toMSecsSinceEpoch_def)

lemma skipped_below:
  assumes "skips s e" and "\<not> skips s e'" and "peerKey e = peerKey e'"
  shows "stamp e \<le> stamp e'"
proof (rule ccontr)
  assume "\<not> stamp e \<le> stamp e'"
  then have "stamp e' \<le> stamp e" by simp
  then have "covered (db s) (peerKey e) (stamp e')"
    using assms(1) unfolding skips_stamp by (rule covered_mono)
  then show False using assms(2,3) by (simp add: skips_stamp)
qed

lemma removedMerged_elem:
  assumes "length ro = length rn" and "e \<in> set rn"
  shows "\<exists>x \<in> set (removedMerged ro rn).
           peerKey x = peerKey e \<and> mtime_or_now now x = mtime_or_now now e"
  using assms unfolding removedMerged_def
  by (induction ro rn rule: list_induct2) (auto simp: peerKey_def mtime_or_now_def)

lemma sync_covers:
  assumes dj: "set (map peerKey U) \<inter> set (map peerKey R) = {}"
    and st: "\<And>x. x \<in> set U \<union> set R \<Longrightarrow> stamp x \<le> mtime_or_now now x"
    and c: "last (emitted (sync now U R s)) = DataSynced U R"
    and e: "e \<in> set U \<union> set R"
  shows "skips (sync now U R s) e"
proof -
  let ?rn = "fst (classifyRemoved s R)" and ?ro = "snd (classifyRemoved s R)"
  let ?ins = "fst (fst (classifyUpdated s U))" and ?un = "fst (snd (classifyUpdated s U))"
  let ?uo = "snd (snd (classifyUpdated s U))"
  let ?rm = "removedMerged ?ro ?rn"
  obtain s0 s2 where d0: "db s0 = db s"
    and ok: "syncData now ?rm ?ins ?un ?uo s0 = (True, s2)"
    and d2: "db (sync now U R s) = db s2"
    using sync_committed [OF c] by blast
  have rn: "?rn = filter (\<lambda>e. \<not> skips s e) R" by (rule classifyRemoved_new)
  have ins: "?ins = filter (\<lambda>e. \<not> skips s e \<and> classedInsert s e) U"
    by (rule classifyUpdated_inserted)
  have un: "?un = filter (\<lambda>e. \<not> skips s e \<and> \<not> classedInsert s e) U"
    by (rule classifyUpdated_updated)
  have len: "length ?ro = length ?rn" by (rule classifyRemoved_length)
  have krm: "set (map peerKey ?rm) = set (map peerKey ?rn)"
    using removedMerged_keys [OF len] by simp
  have "set (map peerKey ?rn) \<subseteq> set (map peerKey R)"
    unfolding rn by auto
  then have krR: "set (map peerKey ?rm) \<subseteq> set (map peerKey R)"
    using krm by simp
  note M = merge_establishes [OF ok]
  have A1: "\<And>x. x \<in> set ?rm \<Longrightarrow> covered (db s2) (peerKey x) (mtime_or_now now x)"
    using M by blast
  have A2: "\<And>x. x \<in> set ?ins \<Longrightarrow> covered (db s2) (peerKey x) (mtime_or_now now x)"
    using M by blast
  have A3: "\<And>x. x \<in> set ?un \<Longrightarrow> live_mtime (db s) (peerKey x) \<noteq> None
      \<Longrightarrow> peerKey x \<notin> set (map peerKey ?rm) \<Longrightarrow> peerKey x \<notin> set (map peerKey ?ins)
      \<Longrightarrow> covered (db s2) (peerKey x) (mtime_or_now now x)"
    using M unfolding d0 by blast
  have B: "\<And>u m. covered (db s) u m \<Longrightarrow> u \<notin> set (map peerKey ?rm) \<Longrightarrow> covered (db s2) u m"
    using M unfolding d0 by blast
  have fromR: "\<And>e'. e' \<in> set ?rn \<Longrightarrow> peerKey e' = peerKey e
      \<Longrightarrow> stamp e \<le> mtime_or_now now e' \<Longrightarrow> covered (db s2) (peerKey e) (stamp e)"
  proof -
    fix e' assume e': "e' \<in> set ?rn" and k: "peerKey e' = peerKey e"
      and le: "stamp e \<le> mtime_or_now now e'"
    obtain x where x: "x \<in> set ?rm" "peerKey x = peerKey e'"
      "mtime_or_now now x = mtime_or_now now e'"
      using removedMerged_elem [OF len e'] by blast
    have "covered (db s2) (peerKey x) (mtime_or_now now x)" using x(1) by (rule A1)
    then have "covered (db s2) (peerKey e) (mtime_or_now now e')" using x(2,3) k by simp
    with le show "covered (db s2) (peerKey e) (stamp e)" by (rule covered_mono)
  qed
  have "covered (db s2) (peerKey e) (stamp e)"
  proof (cases "e \<in> set R")
    case inR: True
    show ?thesis
    proof (cases "skips s e")
      case False
      have "e \<in> set ?rn" using False inR unfolding rn by simp
      moreover have "stamp e \<le> mtime_or_now now e" using st e by simp
      ultimately show ?thesis using fromR by blast
    next
      case sk: True
      show ?thesis
      proof (cases "peerKey e \<in> set (map peerKey ?rn)")
        case True
        then obtain e' where e': "e' \<in> set ?rn" "peerKey e' = peerKey e" by auto
        have ns: "\<not> skips s e'" and e'R: "e' \<in> set R" using e'(1) unfolding rn by simp_all
        have "stamp e \<le> stamp e'" using sk ns e'(2) by (simp add: skipped_below)
        moreover have "stamp e' \<le> mtime_or_now now e'" using st e'R by simp
        ultimately have "stamp e \<le> mtime_or_now now e'" by simp
        then show ?thesis using fromR e' by blast
      next
        case False
        then have n: "peerKey e \<notin> set (map peerKey ?rm)" unfolding krm .
        have "covered (db s) (peerKey e) (stamp e)" using sk by (simp add: skips_stamp)
        then show ?thesis using n by (rule B)
      qed
    qed
  next
    case False
    then have inU: "e \<in> set U" using e by simp
    then have "peerKey e \<in> set (map peerKey U)" by simp
    then have "peerKey e \<notin> set (map peerKey R)" using dj by blast
    then have n: "peerKey e \<notin> set (map peerKey ?rm)" using krR by blast
    have le: "stamp e \<le> mtime_or_now now e" using st e by simp
    show ?thesis
    proof (cases "skips s e")
      case True
      then have "covered (db s) (peerKey e) (stamp e)" by (simp add: skips_stamp)
      then show ?thesis using n by (rule B)
    next
      case ns: False
      show ?thesis
      proof (cases "classedInsert s e")
        case True
        then have "e \<in> set ?ins" using ns inU unfolding ins by simp
        then have "covered (db s2) (peerKey e) (mtime_or_now now e)" by (rule A2)
        with le show ?thesis by (rule covered_mono)
      next
        case nc: False
        then have u: "e \<in> set ?un" using ns inU unfolding un by simp
        have l: "live_mtime (db s) (peerKey e) \<noteq> None" using nc by (rule not_classedInsert_live)
        have ni: "peerKey e \<notin> set (map peerKey ?ins)"
        proof
          assume "peerKey e \<in> set (map peerKey ?ins)"
          then obtain e' where e': "e' \<in> set ?ins" "peerKey e' = peerKey e" by auto
          have "classedInsert s e'" using e'(1) unfolding ins by simp
          then have "classedInsert s e" using classedInsert_key [OF e'(2)] by simp
          then show False using nc by simp
        qed
        have "covered (db s2) (peerKey e) (mtime_or_now now e)" using u l n ni by (rule A3)
        with le show ?thesis by (rule covered_mono)
      qed
    qed
  qed
  then show ?thesis unfolding skips_stamp d2 .
qed

text \<open>
  Claim C3, as amended. Let no uuid be named both in the updated list \<open>U\<close> and in the
  removed list \<open>R\<close>, let every peer record carry a modification time (or the clock of the
  first call be at or after the epoch, the instant an invalid modification time is ordered
  as), and let the first \<^verbatim>\<open>sync(U, R)\<close> end with \<^verbatim>\<open>dataSynced\<close>, that is, with its
  transaction committed. Then in a second \<^verbatim>\<open>sync(U, R)\<close>, at any clock, the classification
  pass skips every record: the removed, inserted and updated lists are empty, and the
  second call changes nothing but to emit \<^verbatim>\<open>syncStatsAvailable\<close> with six empty lists and
  \<^verbatim>\<open>dataSynced\<close>; the tables, \<^verbatim>\<open>m_size\<close>, the categories and the undo stack are those
  left by the first call.
\<close>

theorem sync_idempotent:
  assumes dj: "set (map peerKey U) \<inter> set (map peerKey R) = {}"
    and st: "(\<forall>e \<in> set (U @ R). mTime e \<noteq> None) \<or> 0 \<le> now"
    and c: "last (emitted (sync now U R s)) = DataSynced U R"
  shows "classifyRemoved (sync now U R s) R = ([], [])
       \<and> classifyUpdated (sync now U R s) U = (([], []), ([], []))
       \<and> sync now' U R (sync now U R s)
           = emit (DataSynced U R)
               (emit (SyncStatsAvailable [] [] [] [] [] []) (sync now U R s))"
proof -
  have le: "\<And>x. x \<in> set U \<union> set R \<Longrightarrow> stamp x \<le> mtime_or_now now x"
  proof -
    fix x assume "x \<in> set U \<union> set R"
    then have "mTime x \<noteq> None \<or> 0 \<le> now" using st by auto
    then show "stamp x \<le> mtime_or_now now x" by (rule stamp_le)
  qed
  have sk: "\<And>e. e \<in> set U \<union> set R \<Longrightarrow> skips (sync now U R s) e"
    using dj le c by (rule sync_covers)
  have r: "classifyRemoved (sync now U R s) R = ([], [])"
    by (rule classifyRemoved_skips) (simp add: sk)
  have u: "classifyUpdated (sync now U R s) U = (([], []), ([], []))"
    by (rule classifyUpdated_skips) (simp add: sk)
  have "sync now' U R (sync now U R s)
           = emit (DataSynced U R)
               (emit (SyncStatsAvailable [] [] [] [] [] []) (sync now U R s))"
    unfolding sync_def [of now' U R "sync now U R s"] r u
    by (simp add: syncData_def removedMerged_def syncNotify_def)
  then show ?thesis using r u by simp
qed

theorem sync_idempotent_witness:
  "last (emitted (sync 4 [samplePeer 2 250 ''c'' 9, samplePeer 4 400 ''d'' 9]
                    [syncData_of_tombstone 1 9] threeEntries))
     = DataSynced [samplePeer 2 250 ''c'' 9, samplePeer 4 400 ''d'' 9] [syncData_of_tombstone 1 9]
   \<and> map r_uuid (timelog (db (sync 4 [samplePeer 2 250 ''c'' 9, samplePeer 4 400 ''d'' 9]
                    [syncData_of_tombstone 1 9] threeEntries))) = [2, 3, 4]
   \<and> classifyRemoved (sync 4 [samplePeer 2 250 ''c'' 9, samplePeer 4 400 ''d'' 9]
                    [syncData_of_tombstone 1 9] threeEntries) [syncData_of_tombstone 1 9]
       = ([], [])
   \<and> classifyUpdated (sync 4 [samplePeer 2 250 ''c'' 9, samplePeer 4 400 ''d'' 9]
                    [syncData_of_tombstone 1 9] threeEntries)
         [samplePeer 2 250 ''c'' 9, samplePeer 4 400 ''d'' 9]
       = (([], []), ([], []))
   \<and> timelog (db (sync 5 [samplePeer 2 250 ''c'' 9, samplePeer 4 400 ''d'' 9]
                    [syncData_of_tombstone 1 9]
                    (sync 4 [samplePeer 2 250 ''c'' 9, samplePeer 4 400 ''d'' 9]
                       [syncData_of_tombstone 1 9] threeEntries)))
       = timelog (db (sync 4 [samplePeer 2 250 ''c'' 9, samplePeer 4 400 ''d'' 9]
                    [syncData_of_tombstone 1 9] threeEntries))"
proof -
  let ?U = "[samplePeer 2 250 ''c'' 9, samplePeer 4 400 ''d'' 9]"
  let ?R = "[syncData_of_tombstone 1 9]"
  have dj: "set (map peerKey ?U) \<inter> set (map peerKey ?R) = {}" by code_simp
  have st: "(\<forall>e \<in> set (?U @ ?R). mTime e \<noteq> None) \<or> (0::int) \<le> 4" by simp
  have c: "last (emitted (sync 4 ?U ?R threeEntries)) = DataSynced ?U ?R" by code_simp
  have t: "map r_uuid (timelog (db (sync 4 ?U ?R threeEntries))) = [2, 3, 4]" by code_simp
  show ?thesis using sync_idempotent [OF dj st c, of 5] c t by simp
qed

text \<open>
  The claim as written fails when the batch names one uuid in both lists. The worker
  holds uuid 1 with mtime 1; the peer sends an update of uuid 1 with mtime 5 and a removal
  of uuid 1 with mtime 3. The first call commits: the removal deletes the row and leaves a
  tombstone with mtime 3, and the update then finds no row. In the second call the update
  is newer than that tombstone, is classified as an insert, and the row comes back.
\<close>

theorem sync_overlapping_uuid_counterexample:
  "last (emitted (sync 2 [samplePeer 1 100 ''a'' 5] [syncData_of_tombstone 1 3] oneEntry))
     = DataSynced [samplePeer 1 100 ''a'' 5] [syncData_of_tombstone 1 3]
   \<and> timelog (db (sync 2 [samplePeer 1 100 ''a'' 5] [syncData_of_tombstone 1 3] oneEntry)) = []
   \<and> removed (db (sync 2 [samplePeer 1 100 ''a'' 5] [syncData_of_tombstone 1 3] oneEntry)) 1
       = Some 3
   \<and> fst (fst (classifyUpdated
         (sync 2 [samplePeer 1 100 ''a'' 5] [syncData_of_tombstone 1 3] oneEntry)
         [samplePeer 1 100 ''a'' 5])) = [samplePeer 1 100 ''a'' 5]
   \<and> map r_uuid (timelog (db (sync 3 [samplePeer 1 100 ''a'' 5] [syncData_of_tombstone 1 3]
         (sync 2 [samplePeer 1 100 ''a'' 5] [syncData_of_tombstone 1 3] oneEntry)))) = [1]
   \<and> removed (db (sync 3 [samplePeer 1 100 ''a'' 5] [syncData_of_tombstone 1 3]
         (sync 2 [samplePeer 1 100 ''a'' 5] [syncData_of_tombstone 1 3] oneEntry))) 1 = None"
  by code_simp

text \<open>
  The two other hypotheses are needed as well. After a merge that failed and was rolled
  back, the same batch is classified as before (and \<^verbatim>\<open>m_size\<close>, which the rollback does
  not restore, drifts once more). A record without a modification time is written with
  the clock of the call, and is classified again when that clock is before the epoch.
\<close>

lemma sync_after_failed_merge:
  "last (emitted (sync 2 [samplePeer 2 200 ''b'' 5, samplePeer 3 200 ''c'' 6] [] oneEntry))
     = Error SqlLastError
   \<and> fst (fst (classifyUpdated
         (sync 2 [samplePeer 2 200 ''b'' 5, samplePeer 3 200 ''c'' 6] [] oneEntry)
         [samplePeer 2 200 ''b'' 5, samplePeer 3 200 ''c'' 6]))
       = [samplePeer 2 200 ''b'' 5, samplePeer 3 200 ''c'' 6]
   \<and> m_size (sync 2 [samplePeer 2 200 ''b'' 5, samplePeer 3 200 ''c'' 6] [] oneEntry) = 2
   \<and> m_size (sync 3 [samplePeer 2 200 ''b'' 5, samplePeer 3 200 ''c'' 6] []
         (sync 2 [samplePeer 2 200 ''b'' 5, samplePeer 3 200 ''c'' 6] [] oneEntry)) = 3"
  by code_simp

lemma sync_unstamped_before_epoch:
  "fst (snd (classifyUpdated
         (sync (- 5) [toSyncData (sampleEntry 2 200 ''b'')] [] oneEntry)
         [toSyncData (sampleEntry 2 200 ''b'')])) = [toSyncData (sampleEntry 2 200 ''b'')]
   \<and> map r_mtime (timelog (db (sync (- 5) [toSyncData (sampleEntry 2 200 ''b'')] [] oneEntry)))
       = [1, - 5]
   \<and> map r_mtime (timelog (db (sync (- 4) [toSyncData (sampleEntry 2 200 ''b'')] []
         (sync (- 5) [toSyncData (sampleEntry 2 200 ''b'')] [] oneEntry)))) = [1, - 4]"
  by code_simp

end
